theory Spec2Isabelle
  imports Main "HOL-Library.Code_Target_Nat"
begin

section \<open>Text\<close>

text \<open>
  A JavaScript string is a sequence of UTF-16 code units, and a regular expression
  without the \<open>u\<close> flag matches code unit by code unit. The Chinese characters of the
  range U+4E00 to U+9FA5 are one code unit each.
\<close>

type_synonym jsstring = "nat list"

definition asc :: "string \<Rightarrow> jsstring" where
  "asc s = map of_char s"

definition dquote :: nat where "dquote = 34"
definition squote :: nat where "squote = 39"
definition backtick :: nat where "backtick = 96"

text \<open>\<open>String.prototype.startsWith\<close>.\<close>

definition startsWith :: "jsstring \<Rightarrow> jsstring \<Rightarrow> bool" where
  "startsWith s p = (take (length p) s = p)"

definition endsWith :: "jsstring \<Rightarrow> jsstring \<Rightarrow> bool" where
  "endsWith s p = (length p \<le> length s \<and> drop (length s - length p) s = p)"

text \<open>The character class of the code units U+4E00 to U+9FA5, written \<open>[C]\<close> below.\<close>

definition isCJK :: "nat \<Rightarrow> bool" where
  "isCJK c = (19968 \<le> c \<and> c \<le> 40869)"

text \<open>
  The class \<open>\s\<close>: tab, line feed, vertical tab, form feed, carriage return, space,
  no-break space, U+1680, U+2000 to U+200A, U+2028, U+2029, U+202F, U+205F, U+3000
  and U+FEFF.
\<close>

definition isSpace :: "nat \<Rightarrow> bool" where
  "isSpace c = (c \<in> {9, 10, 11, 12, 13, 32, 160, 5760, 8232, 8233, 8239, 8287, 12288, 65279}
                 \<or> (8192 \<le> c \<and> c \<le> 8202))"

text \<open>\<open>regex.test(code)\<close> for an unanchored pattern: a match may start anywhere.\<close>

fun anywhere :: "(jsstring \<Rightarrow> bool) \<Rightarrow> jsstring \<Rightarrow> bool" where
  "anywhere P [] = P []"
| "anywhere P (c # cs) = (P (c # cs) \<or> anywhere P cs)"

section \<open>hasChineseIdentifier\<close>

definition declKeywords :: "jsstring list" where
  "declKeywords = map asc [''export'', ''import'', ''class'', ''function'', ''const'', ''let'', ''var'']"

text \<open>\<open>(?:export|import|class|function|const|let|var)\s+[C]\<close>, matched at the head.\<close>

definition keywordThenCJK :: "jsstring \<Rightarrow> bool" where
  "keywordThenCJK s =
     list_ex (\<lambda>k. startsWith s k \<and>
        (let r = drop (length k) s; r' = dropWhile isSpace r
         in r \<noteq> [] \<and> isSpace (hd r) \<and> r' \<noteq> [] \<and> isCJK (hd r'))) declKeywords"

text \<open>\<open>[{.][C]+[:\s]\<close>, matched at the head.\<close>

definition propertyCJK :: "jsstring \<Rightarrow> bool" where
  "propertyCJK s =
     (case s of [] \<Rightarrow> False
      | c # r \<Rightarrow> (c = 123 \<or> c = 46) \<and> r \<noteq> [] \<and> isCJK (hd r) \<and>
          (let r' = dropWhile isCJK r in r' \<noteq> [] \<and> (hd r' = 58 \<or> isSpace (hd r'))))"

text \<open>\<open>[C]+\s*\(\<close>, matched at the head.\<close>

definition callCJK :: "jsstring \<Rightarrow> bool" where
  "callCJK s =
     (s \<noteq> [] \<and> isCJK (hd s) \<and>
      (let r = dropWhile isSpace (dropWhile isCJK s) in r \<noteq> [] \<and> hd r = 40))"

definition hasChineseIdentifier :: "jsstring \<Rightarrow> bool" where
  "hasChineseIdentifier code =
     (if anywhere keywordThenCJK code then True
      else if anywhere propertyCJK code then True
      else if anywhere callCJK code then True
      else False)"

section \<open>Regular expressions\<close>

text \<open>
  The fourteen characters that \<open>escapeRegExp\<close> escapes: \<^verbatim>\<open>. * + ? ^ $ { } ( ) | [ ]\<close>
  and the backslash.
\<close>

definition syntaxChars :: "nat list" where
  "syntaxChars = [46, 42, 43, 63, 94, 36, 123, 125, 40, 41, 124, 91, 93, 92]"

fun escapeRegExp :: "jsstring \<Rightarrow> jsstring" where
  "escapeRegExp [] = []"
| "escapeRegExp (c # cs) =
     (if c \<in> set syntaxChars then 92 # c # escapeRegExp cs else c # escapeRegExp cs)"

text \<open>
  The literal a pattern stands for, when the pattern is built of ordinary characters and
  of syntax characters escaped by a backslash; \<open>None\<close> for every other pattern.
\<close>

fun literalOf :: "jsstring \<Rightarrow> jsstring option" where
  "literalOf [] = Some []"
| "literalOf [c] = (if c \<in> set syntaxChars then None else Some [c])"
| "literalOf (c # d # cs) =
     (if c = 92 then
        (if d \<in> set syntaxChars then map_option (\<lambda>l. d # l) (literalOf cs) else None)
      else if c \<in> set syntaxChars then None
      else map_option (\<lambda>l. c # l) (literalOf (d # cs)))"

text \<open>
  \<open>text.replace(regex, ...)\<close> with the \<open>g\<close> flag, for a regex that matches the literal
  \<open>pat\<close> and a replacement that is the fixed text \<open>rep\<close>: matches are found from left
  to right and do not overlap; the search goes on after the end of each match. An empty
  pattern matches before every code unit and at the end.
\<close>

fun replaceLiteral :: "jsstring \<Rightarrow> jsstring \<Rightarrow> jsstring \<Rightarrow> jsstring" where
  "replaceLiteral pat rep [] = (if pat = [] then rep else [])"
| "replaceLiteral pat rep (c # cs) =
     (if pat = [] then rep @ c # replaceLiteral pat rep cs
      else if startsWith (c # cs) pat
        then rep @ replaceLiteral pat rep (drop (length pat - 1) cs)
      else c # replaceLiteral pat rep cs)"

text \<open>
  The regular-expression engine belongs to the JavaScript runtime. It is a parameter of
  the model: \<open>re pat\<close> is \<open>None\<close> when \<open>new RegExp(pat, 'g')\<close> throws a SyntaxError, and
  \<open>Some f\<close> otherwise, where \<open>f template text\<close> is \<open>text.replace(regex, template)\<close>.
\<close>

type_synonym regexp = "jsstring \<Rightarrow> (jsstring \<Rightarrow> jsstring \<Rightarrow> jsstring) option"

text \<open>
  A fragment of the engine, for concrete runs: a pattern of ordinary and escaped
  characters matches its literal, and a template without \<open>$\<close> is inserted as it is.
  The fragment rejects every other pattern; of these, the runs below use only \<open>(\<close>,
  an unterminated group, which \<open>new RegExp\<close> rejects too.
\<close>

definition literalRegExp :: regexp where
  "literalRegExp pat = map_option (\<lambda>lit. (\<lambda>template text. replaceLiteral lit template text)) (literalOf pat)"

section \<open>The translation map and the plugin\<close>

record pattern =
  match :: jsstring
  replace :: jsstring

text \<open>
  A section of the map (\<open>webviews\<close> or \<open>statusBar\<close>). A field may be missing; \<open>exact\<close>
  lists its entries in the order of \<open>Object.entries\<close>.
\<close>

record l10nSection =
  patterns :: "pattern list option"
  exact :: "(jsstring \<times> jsstring) list option"

record localization =
  webviews :: "l10nSection option"
  statusBar :: "l10nSection option"

record stats =
  filesProcessed :: nat
  stringsReplaced :: nat

record plugin =
  enabled :: bool
  verbose :: bool
  l10nMap :: "localization option"
  stats :: stats

text \<open>What the plugin prints while it replaces strings.\<close>

datatype message =
    RollbackExact jsstring jsstring
  | RollbackPattern jsstring
  | RollbackStatusBar jsstring
  | RegexError jsstring
  | FileSummary jsstring nat nat

text \<open>The local variables of \<open>replaceStrings\<close>, and the warnings printed so far.\<close>

record run =
  result :: jsstring
  replacements :: nat
  rollbacks :: nat
  warnings :: "message list"

section \<open>replaceStrings\<close>

definition quoteChars :: "nat list" where
  "quoteChars = [dquote, squote, backtick]"

text \<open>
  The \<open>forEach\<close> over the three quote characters: the regex built from the quote, the
  escaped key and the quote matches the quoted key literally, and the replacement is a
  function, so the translation is inserted as it is.
\<close>

fun forEachQuote :: "jsstring \<Rightarrow> jsstring \<Rightarrow> nat list \<Rightarrow> jsstring \<times> bool \<Rightarrow> jsstring \<times> bool" where
  "forEachQuote en zh [] (res, replaced) = (res, replaced)"
| "forEachQuote en zh (quoteChar # qs) (res, replaced) =
     (let newResult = replaceLiteral (quoteChar # en @ [quoteChar]) (quoteChar # zh @ [quoteChar]) res
      in forEachQuote en zh qs (if newResult \<noteq> res then (newResult, True) else (res, replaced)))"

text \<open>The text that the three replacements of one entry produce, before the safety check.\<close>

definition exactText :: "jsstring \<Rightarrow> jsstring \<Rightarrow> jsstring \<Rightarrow> jsstring" where
  "exactText en zh t = fst (forEachQuote en zh quoteChars (t, False))"

text \<open>The literal \<open>pat\<close> occurs somewhere in the text.\<close>

definition occurs :: "jsstring \<Rightarrow> jsstring \<Rightarrow> bool" where
  "occurs pat t = anywhere (\<lambda>s. startsWith s pat) t"

text \<open>The flag \<open>replaced\<close> after the three replacements of one entry.\<close>

definition exactReplaced :: "jsstring \<Rightarrow> jsstring \<Rightarrow> jsstring \<Rightarrow> bool" where
  "exactReplaced en zh t = snd (forEachQuote en zh quoteChars (t, False))"

text \<open>One iteration of the loop over \<open>webviews.exact\<close>.\<close>

definition exactEntry :: "jsstring \<times> jsstring \<Rightarrow> run \<Rightarrow> run" where
  "exactEntry e st =
     (case e of (en, zh) \<Rightarrow>
        if startsWith en (asc ''_'') then st
        else
          let beforeReplace = result st;
              (res, replaced) = forEachQuote en zh quoteChars (result st, False)
          in if replaced \<and> hasChineseIdentifier res \<and> \<not> hasChineseIdentifier beforeReplace
             then st\<lparr>result := beforeReplace, rollbacks := rollbacks st + 1,
                     warnings := warnings st @ [RollbackExact en zh]\<rparr>
             else if replaced then st\<lparr>result := res, replacements := replacements st + 1\<rparr>
             else st\<lparr>result := res\<rparr>)"

fun exactPass :: "(jsstring \<times> jsstring) list \<Rightarrow> run \<Rightarrow> run" where
  "exactPass [] st = st"
| "exactPass (e # es) st = exactPass es (exactEntry e st)"

text \<open>
  One iteration of a loop over patterns; \<open>warn\<close> is the rollback warning of the loop.
  A SyntaxError of \<open>new RegExp\<close> is caught: the warning is printed and nothing else
  changes.
\<close>

definition patternEntry :: "regexp \<Rightarrow> (jsstring \<Rightarrow> message) \<Rightarrow> pattern \<Rightarrow> run \<Rightarrow> run" where
  "patternEntry re warn p st =
     (case re (match p) of
        None \<Rightarrow> st\<lparr>warnings := warnings st @ [RegexError (match p)]\<rparr>
      | Some regex \<Rightarrow>
          let beforeReplace = result st;
              res = regex (replace p) beforeReplace
          in if hasChineseIdentifier res \<and> \<not> hasChineseIdentifier beforeReplace
             then st\<lparr>result := beforeReplace, rollbacks := rollbacks st + 1,
                     warnings := warnings st @ [warn (match p)]\<rparr>
             else if res \<noteq> beforeReplace then st\<lparr>result := res, replacements := replacements st + 1\<rparr>
             else st\<lparr>result := res\<rparr>)"

fun patternPass :: "regexp \<Rightarrow> (jsstring \<Rightarrow> message) \<Rightarrow> pattern list \<Rightarrow> run \<Rightarrow> run" where
  "patternPass re warn [] st = st"
| "patternPass re warn (p # ps) st = patternPass re warn ps (patternEntry re warn p st)"

text \<open>The three passes of \<open>replaceStrings\<close>, each guarded by the optional chain of the source.\<close>

definition exactOf :: "localization \<Rightarrow> (jsstring \<times> jsstring) list option" where
  "exactOf m = (case webviews m of None \<Rightarrow> None | Some w \<Rightarrow> exact w)"

definition webviewPatternsOf :: "localization \<Rightarrow> pattern list option" where
  "webviewPatternsOf m = (case webviews m of None \<Rightarrow> None | Some w \<Rightarrow> patterns w)"

definition statusBarPatternsOf :: "localization \<Rightarrow> pattern list option" where
  "statusBarPatternsOf m = (case statusBar m of None \<Rightarrow> None | Some s \<Rightarrow> patterns s)"

definition pass1 :: "localization \<Rightarrow> run \<Rightarrow> run" where
  "pass1 m st = (case exactOf m of None \<Rightarrow> st | Some es \<Rightarrow> exactPass es st)"

definition pass2 :: "regexp \<Rightarrow> localization \<Rightarrow> run \<Rightarrow> run" where
  "pass2 re m st =
     (case webviewPatternsOf m of None \<Rightarrow> st | Some ps \<Rightarrow> patternPass re RollbackPattern ps st)"

definition pass3 :: "regexp \<Rightarrow> localization \<Rightarrow> run \<Rightarrow> run" where
  "pass3 re m st =
     (case statusBarPatternsOf m of None \<Rightarrow> st | Some ps \<Rightarrow> patternPass re RollbackStatusBar ps st)"

definition start :: "jsstring \<Rightarrow> run" where
  "start source = \<lparr>result = source, replacements = 0, rollbacks = 0, warnings = []\<rparr>"

definition runRules :: "regexp \<Rightarrow> localization \<Rightarrow> jsstring \<Rightarrow> run" where
  "runRules re m source = pass3 re m (pass2 re m (pass1 m (start source)))"

text \<open>
  \<open>replaceStrings(source, filename)\<close>: the returned text, the plugin with its statistics
  updated, and what was printed.
\<close>

definition replaceStrings :: "regexp \<Rightarrow> plugin \<Rightarrow> jsstring \<Rightarrow> jsstring \<Rightarrow> jsstring \<times> plugin \<times> message list" where
  "replaceStrings re this source filename =
     (case l10nMap this of
        None \<Rightarrow> (source, this, [])
      | Some m \<Rightarrow>
          let st = runRules re m source
          in if replacements st > 0 \<or> rollbacks st > 0
             then (result st,
                   this\<lparr>stats := \<lparr>filesProcessed = filesProcessed (stats this) + 1,
                                   stringsReplaced = stringsReplaced (stats this) + replacements st\<rparr>\<rparr>,
                   warnings st @
                     (if verbose this then [FileSummary filename (replacements st) (rollbacks st)] else []))
             else (result st, this, warnings st))"

text \<open>
  Two runs that hold the same text and the same number of replacements, the second with
  \<open>k\<close> more rollbacks.
\<close>

definition ahead :: "nat \<Rightarrow> run \<Rightarrow> run \<Rightarrow> bool" where
  "ahead k st st' =
     (result st' = result st \<and> replacements st' = replacements st \<and> rollbacks st' = rollbacks st + k)"

section \<open>The asset hook\<close>

text \<open>The test \<open>/\.js$/\<close> on a file name.\<close>

definition eligible :: "jsstring \<Rightarrow> bool" where
  "eligible filename = endsWith filename (asc ''.js'')"

text \<open>\<open>compilation.updateAsset\<close>: the asset of that name gets the new content.\<close>

definition updateAsset :: "jsstring \<Rightarrow> jsstring \<Rightarrow> (jsstring \<times> jsstring) list \<Rightarrow> (jsstring \<times> jsstring) list" where
  "updateAsset filename content assets =
     map (\<lambda>(f, c). if f = filename then (f, content) else (f, c)) assets"

text \<open>
  The loop of the \<open>processAssets\<close> hook over \<open>Object.entries(assets)\<close>, taken once before
  the loop; the state is the plugin, the assets of the compilation and the output.
\<close>

fun processEntries :: "regexp \<Rightarrow> (jsstring \<times> jsstring) list \<Rightarrow>
    plugin \<times> (jsstring \<times> jsstring) list \<times> message list \<Rightarrow>
    plugin \<times> (jsstring \<times> jsstring) list \<times> message list" where
  "processEntries re [] s = s"
| "processEntries re ((filename, content) # es) (this, assets, out) =
     (if \<not> eligible filename then processEntries re es (this, assets, out)
      else
        (case replaceStrings re this content filename of
           (replacedContent, this', msgs) \<Rightarrow>
             processEntries re es
               (this',
                if replacedContent \<noteq> content then updateAsset filename replacedContent assets else assets,
                out @ msgs)))"

definition processAssets :: "regexp \<Rightarrow> plugin \<Rightarrow> (jsstring \<times> jsstring) list \<Rightarrow>
    plugin \<times> (jsstring \<times> jsstring) list \<times> message list" where
  "processAssets re this assets = processEntries re assets (this, assets, [])"

section \<open>Example inputs and notions used in the statements\<close>

definition zhOpen :: jsstring where "zhOpen = [25171, 24320]"
definition zhOpenChanges :: jsstring where "zhOpenChanges = [25171, 24320, 26356, 25913]"
definition zhTranslation :: jsstring where "zhTranslation = [32763, 35793]"

text \<open>
  A map whose pattern would turn the identifier of \<open>export Home\<close> into Chinese, next to
  an unrelated exact entry.
\<close>

definition rollbackMap :: localization where
  "rollbackMap =
     \<lparr>webviews = Some \<lparr>patterns = Some [\<lparr>match = asc ''Home'', replace = zhTranslation\<rparr>],
                        exact = Some [(asc ''Open'', zhOpen)]\<rparr>,
      statusBar = None\<rparr>"

definition rollbackSource :: jsstring where
  "rollbackSource = asc ''export Home;t='' @ [dquote] @ asc ''Open'' @ [dquote]"

definition pluginWith :: "localization \<Rightarrow> plugin" where
  "pluginWith m = \<lparr>enabled = True, verbose = False, l10nMap = Some m,
                    stats = \<lparr>filesProcessed = 0, stringsReplaced = 0\<rparr>\<rparr>"

definition zhClose :: jsstring where "zhClose = [20851, 38381]"

text \<open>Three exact entries; the translation of the second ends in a call.\<close>

definition threeEntries :: "(jsstring \<times> jsstring) list" where
  "threeEntries = [(asc ''Open'', zhOpen), (asc ''Save'', zhTranslation @ asc ''(''), (asc ''Close'', zhClose)]"

definition threeSource :: jsstring where
  "threeSource = asc ''t='' @ [dquote] @ asc ''Open'' @ [dquote] @ asc '';u='' @ [dquote] @ asc ''Save''
     @ [dquote] @ asc '';v='' @ [dquote] @ asc ''Close'' @ [dquote]"

text \<open>Three patterns around the one that would corrupt \<open>export Home\<close>, or around a malformed one.\<close>

definition patOpen :: pattern where "patOpen = \<lparr>match = asc ''Open'', replace = zhOpen\<rparr>"
definition patHome :: pattern where "patHome = \<lparr>match = asc ''Home'', replace = zhTranslation\<rparr>"
definition patT :: pattern where "patT = \<lparr>match = asc ''t='', replace = asc ''s=''\<rparr>"
definition patBad :: pattern where "patBad = \<lparr>match = asc ''('', replace = asc ''x''\<rparr>"

text \<open>Rules of the three sets that match each other's output.\<close>

definition orderMap :: localization where
  "orderMap =
     \<lparr>webviews = Some \<lparr>patterns = Some [\<lparr>match = asc ''Close'', replace = asc ''Shut''\<rparr>],
                        exact = Some [(asc ''Open'', asc ''Close'')]\<rparr>,
      statusBar = Some \<lparr>patterns = Some [\<lparr>match = asc ''Shut'', replace = asc ''End''\<rparr>],
                         exact = None\<rparr>\<rparr>"

definition orderSource :: jsstring where
  "orderSource = [dquote] @ asc ''Open'' @ [dquote] @ asc '' Shut Close''"

text \<open>The end-to-end example of the exact pass.\<close>

definition openChangesMap :: localization where
  "openChangesMap =
     \<lparr>webviews = Some \<lparr>patterns = None, exact = Some [(asc ''Open Changes'', zhOpenChanges)]\<rparr>,
      statusBar = None\<rparr>"

definition openChangesSource :: jsstring where
  "openChangesSource =
     asc ''const a = '' @ [dquote] @ asc ''Open Changes'' @ [dquote] @ asc ''; function Open_Changes(){}''"

text \<open>The text before each iteration of a loop, in order.\<close>

fun exactTexts :: "(jsstring \<times> jsstring) list \<Rightarrow> run \<Rightarrow> jsstring list" where
  "exactTexts [] st = []"
| "exactTexts (e # es) st = result st # exactTexts es (exactEntry e st)"

fun patternTexts :: "regexp \<Rightarrow> (jsstring \<Rightarrow> message) \<Rightarrow> pattern list \<Rightarrow> run \<Rightarrow> jsstring list" where
  "patternTexts re warn [] st = []"
| "patternTexts re warn (p # ps) st = result st # patternTexts re warn ps (patternEntry re warn p st)"

text \<open>The text before each rule of a run of \<open>replaceStrings\<close>.\<close>

definition textsBefore :: "regexp \<Rightarrow> localization \<Rightarrow> jsstring \<Rightarrow> jsstring list" where
  "textsBefore re m source =
     (case exactOf m of None \<Rightarrow> [] | Some es \<Rightarrow> exactTexts es (start source))
     @ (case webviewPatternsOf m of None \<Rightarrow> []
        | Some ps \<Rightarrow> patternTexts re RollbackPattern ps (pass1 m (start source)))
     @ (case statusBarPatternsOf m of None \<Rightarrow> []
        | Some ps \<Rightarrow> patternTexts re RollbackStatusBar ps (pass2 re m (pass1 m (start source))))"

text \<open>
  A text that starts with a corruption signature; the first entry removes it and the
  second would introduce one.
\<close>

definition repairMap :: localization where
  "repairMap =
     \<lparr>webviews = Some \<lparr>patterns = None,
                        exact = Some [(zhTranslation @ asc ''('', asc ''ok''),
                                      (asc ''Open'', zhTranslation @ asc ''('')]\<rparr>,
      statusBar = None\<rparr>"

definition repairSource :: jsstring where
  "repairSource = [dquote] @ zhTranslation @ asc ''('' @ [dquote] @ asc '' '' @ [dquote] @ asc ''Open'' @ [dquote]"

text \<open>A text with a signature that no rule removes.\<close>

definition corruptMap :: localization where
  "corruptMap =
     \<lparr>webviews = Some \<lparr>patterns = Some [patT], exact = Some [(asc ''Open'', zhTranslation @ asc ''('')]\<rparr>,
      statusBar = None\<rparr>"

definition corruptSource :: jsstring where
  "corruptSource = asc ''export '' @ zhTranslation @ asc '';t='' @ [dquote] @ asc ''Open'' @ [dquote]"

text \<open>One exact entry, and a text in which two quoted occurrences of its key share a quote.\<close>

definition sharedQuoteMap :: localization where
  "sharedQuoteMap =
     \<lparr>webviews = Some \<lparr>patterns = None, exact = Some [(asc ''a'', asc ''x'')]\<rparr>, statusBar = None\<rparr>"

definition sharedQuoteSource :: jsstring where
  "sharedQuoteSource = [dquote] @ asc ''a'' @ [dquote] @ asc ''a'' @ [dquote]"

text \<open>Assets of three kinds; the markup file holds the quoted key too.\<close>

definition someAssets :: "(jsstring \<times> jsstring) list" where
  "someAssets =
     [(asc ''main.js'', openChangesSource),
      (asc ''index.html'', openChangesSource),
      (asc ''webview.js'', asc ''x='' @ [squote] @ asc ''Open Changes'' @ [squote])]"

section \<open>injectLocalization\<close>

text \<open>
  The translation map as \<open>injectLocalization\<close> reads it, and the part of \<open>package.json\<close>
  it touches. An optional field is an \<open>option\<close>; an object used as a dictionary is a map,
  or the list of its entries where the code iterates over it.
\<close>

record commandTranslation =
  tr_title :: "jsstring option"
  tr_category :: "jsstring option"

record viewTranslation =
  tr_name :: "jsstring option"
  tr_contextualTitle :: "jsstring option"

record configEntry =
  description :: "jsstring option"
  markdownDescription :: "jsstring option"

record contributions =
  l10n_commands :: "(jsstring \<rightharpoonup> commandTranslation) option"
  l10n_views :: "(jsstring \<rightharpoonup> viewTranslation) option"
  l10n_configuration :: "(jsstring \<rightharpoonup> configEntry) option"

record commandEntry =
  command :: jsstring
  title :: jsstring
  category :: "jsstring option"

record viewEntry =
  view_id :: jsstring
  name :: jsstring
  contextualTitle :: "jsstring option"

record configurationSection =
  properties :: "(jsstring \<times> configEntry) list option"

record contributes =
  commands :: "commandEntry list"
  views :: "(jsstring \<times> viewEntry list) list"
  configuration :: "configurationSection option"

text \<open>The truth value of an optional string: present and not empty.\<close>

definition truthy :: "jsstring option \<Rightarrow> bool" where
  "truthy v = (case v of None \<Rightarrow> False | Some s \<Rightarrow> s \<noteq> [])"

text \<open>1. The loop over the commands; the number threaded through is \<open>changeCount\<close>.\<close>

definition injectCommand :: "(jsstring \<rightharpoonup> commandTranslation) \<Rightarrow> commandEntry \<Rightarrow> nat \<Rightarrow> commandEntry \<times> nat" where
  "injectCommand trs cmd changeCount =
     (case trs (command cmd) of
        None \<Rightarrow> (cmd, changeCount)
      | Some translation \<Rightarrow>
          let (cmd1, n1) =
                (case tr_title translation of
                   Some t \<Rightarrow> if t \<noteq> [] then (cmd\<lparr>title := t\<rparr>, changeCount + 1) else (cmd, changeCount)
                 | None \<Rightarrow> (cmd, changeCount))
          in (case tr_category translation of
                Some c \<Rightarrow> if c \<noteq> [] then (cmd1\<lparr>category := Some c\<rparr>, n1 + 1) else (cmd1, n1)
              | None \<Rightarrow> (cmd1, n1)))"

fun injectCommands :: "(jsstring \<rightharpoonup> commandTranslation) \<Rightarrow> commandEntry list \<Rightarrow> nat \<Rightarrow> commandEntry list \<times> nat" where
  "injectCommands trs [] changeCount = ([], changeCount)"
| "injectCommands trs (cmd # cmds) changeCount =
     (case injectCommand trs cmd changeCount of
        (cmd', n) \<Rightarrow> (case injectCommands trs cmds n of (cmds', n') \<Rightarrow> (cmd' # cmds', n')))"

text \<open>2. The iteration over the view containers and their views.\<close>

definition injectView :: "(jsstring \<rightharpoonup> viewTranslation) \<Rightarrow> viewEntry \<Rightarrow> nat \<Rightarrow> viewEntry \<times> nat" where
  "injectView trs view changeCount =
     (case trs (view_id view) of
        None \<Rightarrow> (view, changeCount)
      | Some translation \<Rightarrow>
          let (view1, n1) =
                (case tr_name translation of
                   Some t \<Rightarrow> if t \<noteq> [] then (view\<lparr>name := t\<rparr>, changeCount + 1) else (view, changeCount)
                 | None \<Rightarrow> (view, changeCount))
          in (case tr_contextualTitle translation of
                Some c \<Rightarrow> if c \<noteq> [] then (view1\<lparr>contextualTitle := Some c\<rparr>, n1 + 1) else (view1, n1)
              | None \<Rightarrow> (view1, n1)))"

fun injectViewList :: "(jsstring \<rightharpoonup> viewTranslation) \<Rightarrow> viewEntry list \<Rightarrow> nat \<Rightarrow> viewEntry list \<times> nat" where
  "injectViewList trs [] changeCount = ([], changeCount)"
| "injectViewList trs (view # vs) changeCount =
     (case injectView trs view changeCount of
        (view', n) \<Rightarrow> (case injectViewList trs vs n of (vs', n') \<Rightarrow> (view' # vs', n')))"

fun injectViews :: "(jsstring \<rightharpoonup> viewTranslation) \<Rightarrow> (jsstring \<times> viewEntry list) list \<Rightarrow> nat \<Rightarrow>
    (jsstring \<times> viewEntry list) list \<times> nat" where
  "injectViews trs [] changeCount = ([], changeCount)"
| "injectViews trs ((container, vs) # rest) changeCount =
     (case injectViewList trs vs changeCount of
        (vs', n) \<Rightarrow> (case injectViews trs rest n of (rest', n') \<Rightarrow> ((container, vs') # rest', n')))"

text \<open>3. The loop over the configuration properties.\<close>

definition injectProperty :: "(jsstring \<rightharpoonup> configEntry) \<Rightarrow> jsstring \<times> configEntry \<Rightarrow> nat \<Rightarrow>
    (jsstring \<times> configEntry) \<times> nat" where
  "injectProperty trs kc changeCount =
     (case kc of (key, config) \<Rightarrow>
        (case trs key of
           None \<Rightarrow> ((key, config), changeCount)
         | Some translation \<Rightarrow>
             let (config1, n1) =
                   (if truthy (description translation) \<and> truthy (description config)
                    then (config\<lparr>description := description translation\<rparr>, changeCount + 1)
                    else (config, changeCount))
             in if truthy (markdownDescription translation) \<and> truthy (markdownDescription config1)
                then ((key, config1\<lparr>markdownDescription := markdownDescription translation\<rparr>), n1 + 1)
                else ((key, config1), n1)))"

fun injectProperties :: "(jsstring \<rightharpoonup> configEntry) \<Rightarrow> (jsstring \<times> configEntry) list \<Rightarrow> nat \<Rightarrow>
    (jsstring \<times> configEntry) list \<times> nat" where
  "injectProperties trs [] changeCount = ([], changeCount)"
| "injectProperties trs (kc # rest) changeCount =
     (case injectProperty trs kc changeCount of
        (kc', n) \<Rightarrow> (case injectProperties trs rest n of (rest', n') \<Rightarrow> (kc' # rest', n')))"

text \<open>The three steps on the parsed documents, each under the guard of the source.\<close>

definition applyTranslations :: "contributions \<Rightarrow> contributes \<Rightarrow> contributes \<times> nat" where
  "applyTranslations l10n pkg =
     (let (pkg1, n1) =
            (case l10n_commands l10n of
               None \<Rightarrow> (pkg, 0)
             | Some trs \<Rightarrow>
                 (case injectCommands trs (commands pkg) 0 of (cs, n) \<Rightarrow> (pkg\<lparr>commands := cs\<rparr>, n)));
          (pkg2, n2) =
            (case l10n_views l10n of
               None \<Rightarrow> (pkg1, n1)
             | Some trs \<Rightarrow>
                 (case injectViews trs (views pkg1) n1 of (vs, n) \<Rightarrow> (pkg1\<lparr>views := vs\<rparr>, n)))
      in (case l10n_configuration l10n of
            None \<Rightarrow> (pkg2, n2)
          | Some trs \<Rightarrow>
              (case configuration pkg2 of
                 None \<Rightarrow> (pkg2, n2)
               | Some cfg \<Rightarrow>
                   (case properties cfg of
                      None \<Rightarrow> (pkg2, n2)
                    | Some props \<Rightarrow>
                        (case injectProperties trs props n2 of
                           (props', n) \<Rightarrow>
                             (pkg2\<lparr>configuration := Some (cfg\<lparr>properties := Some props'\<rparr>)\<rparr>, n))))))"

text \<open>
  The two files of the script, \<open>None\<close> when a file does not exist, and what the script does
  to the outside, in order.
\<close>

datatype path = L10nPath | PackagePath

record files =
  l10nFile :: "jsstring option"
  packageFile :: "jsstring option"

datatype effect =
    LogStart
  | LogSkipped
  | LogDone nat
  | LogTarget
  | ExistsSync path
  | ReadFile path
  | WriteFile path jsstring

datatype failure = ReadFailed path | ParseFailed path

text \<open>
  \<open>JSON.parse\<close> and \<open>JSON.stringify\<close> belong to the runtime and are parameters; a parser
  gives \<open>None\<close> where \<open>JSON.parse\<close> throws.
\<close>

record json =
  parseL10n :: "jsstring \<Rightarrow> contributions option"
  parsePackage :: "jsstring \<Rightarrow> contributes option"
  stringify :: "contributes \<Rightarrow> jsstring"

text \<open>
  \<open>injectLocalization()\<close>: the exception that ended it, if any, the files afterwards and
  the effects.
\<close>

definition injectLocalization :: "json \<Rightarrow> files \<Rightarrow> failure option \<times> files \<times> effect list" where
  "injectLocalization js fs =
     (case l10nFile fs of
        None \<Rightarrow> (None, fs, [LogStart, ExistsSync L10nPath, LogSkipped])
      | Some l10nText \<Rightarrow>
          (case parseL10n js l10nText of
             None \<Rightarrow> (Some (ParseFailed L10nPath), fs, [LogStart, ExistsSync L10nPath, ReadFile L10nPath])
           | Some l10n \<Rightarrow>
               (case packageFile fs of
                  None \<Rightarrow> (Some (ReadFailed PackagePath), fs,
                            [LogStart, ExistsSync L10nPath, ReadFile L10nPath, ReadFile PackagePath])
                | Some packageText \<Rightarrow>
                    (case parsePackage js packageText of
                       None \<Rightarrow> (Some (ParseFailed PackagePath), fs,
                                 [LogStart, ExistsSync L10nPath, ReadFile L10nPath, ReadFile PackagePath])
                     | Some packageJson \<Rightarrow>
                         (case applyTranslations l10n packageJson of
                            (packageJson', changeCount) \<Rightarrow>
                              (None,
                               fs\<lparr>packageFile := Some (stringify js packageJson' @ [10])\<rparr>,
                               [LogStart, ExistsSync L10nPath, ReadFile L10nPath, ReadFile PackagePath,
                                WriteFile PackagePath (stringify js packageJson' @ [10]),
                                LogDone changeCount, LogTarget]))))))"

text \<open>Example documents of the manifest translator.\<close>

definition zhDescription :: jsstring where "zhDescription = [25551, 36848]"
definition zhMarkdown :: jsstring where "zhMarkdown = [35828, 26126]"

definition bothTranslation :: "jsstring \<rightharpoonup> configEntry" where
  "bothTranslation =
     map_of [(asc ''gitlens.mode'', \<lparr>description = Some zhDescription, markdownDescription = Some zhMarkdown\<rparr>)]"

definition noJson :: json where
  "noJson = \<lparr>parseL10n = (\<lambda>t. None), parsePackage = (\<lambda>t. None), stringify = (\<lambda>p. [])\<rparr>"

definition modeBoth :: configEntry where
  "modeBoth = \<lparr>description = Some (asc ''Mode''), markdownDescription = Some (asc ''The *mode*'')\<rparr>"

definition modePlain :: configEntry where
  "modePlain = \<lparr>description = Some (asc ''Mode''), markdownDescription = None\<rparr>"

definition modeEmptyMarkdown :: configEntry where
  "modeEmptyMarkdown = \<lparr>description = Some (asc ''Mode''), markdownDescription = Some []\<rparr>"

definition configL10n :: contributions where
  "configL10n = \<lparr>l10n_commands = None, l10n_views = None, l10n_configuration = Some bothTranslation\<rparr>"

definition configPackage :: contributes where
  "configPackage =
     \<lparr>commands = [], views = [],
      configuration = Some \<lparr>properties = Some [(asc ''gitlens.mode'', modeBoth), (asc ''gitlens.other'', modeBoth)]\<rparr>\<rparr>"

text \<open>
  One exact entry, and a text that holds its key in double quotes, in single quotes, in
  backticks, between two different quotes and without quotes.
\<close>

definition openMap :: localization where
  "openMap = \<lparr>webviews = Some \<lparr>patterns = None, exact = Some [(asc ''Open'', zhOpen)]\<rparr>, statusBar = None\<rparr>"

definition quotesSource :: jsstring where
  "quotesSource =
     asc ''a='' @ [dquote] @ asc ''Open'' @ [dquote] @ asc '';b='' @ [squote] @ asc ''Open'' @ [squote]
     @ asc '';c='' @ [backtick] @ asc ''Open'' @ [backtick]
     @ asc '';d='' @ [dquote] @ asc ''Open'' @ [squote] @ asc '';Open()''"

definition quotesResult :: jsstring where
  "quotesResult =
     asc ''a='' @ [dquote] @ zhOpen @ [dquote] @ asc '';b='' @ [squote] @ zhOpen @ [squote]
     @ asc '';c='' @ [backtick] @ zhOpen @ [backtick]
     @ asc '';d='' @ [dquote] @ asc ''Open'' @ [squote] @ asc '';Open()''"

text \<open>
  The text part of one rule: what the rule would write (\<open>rawExact\<close>, \<open>rawPattern\<close>), and
  the safety check around it (\<open>guarded\<close>). A skipped entry and a malformed pattern write
  the text they read. \<open>rawRules\<close> lists the rules of a map in the order of the run.
\<close>

definition guarded :: "(jsstring \<Rightarrow> jsstring) \<Rightarrow> jsstring \<Rightarrow> jsstring" where
  "guarded g t = (if hasChineseIdentifier (g t) \<and> \<not> hasChineseIdentifier t then t else g t)"

definition rawExact :: "jsstring \<times> jsstring \<Rightarrow> jsstring \<Rightarrow> jsstring" where
  "rawExact e t = (case e of (en, zh) \<Rightarrow> if startsWith en (asc ''_'') then t else exactText en zh t)"

definition rawPattern :: "regexp \<Rightarrow> pattern \<Rightarrow> jsstring \<Rightarrow> jsstring" where
  "rawPattern re p t = (case re (match p) of None \<Rightarrow> t | Some regex \<Rightarrow> regex (replace p) t)"

definition rawRules :: "regexp \<Rightarrow> localization \<Rightarrow> (jsstring \<Rightarrow> jsstring) list" where
  "rawRules re m =
     map rawExact (case exactOf m of None \<Rightarrow> [] | Some es \<Rightarrow> es)
     @ map (rawPattern re) (case webviewPatternsOf m of None \<Rightarrow> [] | Some ps \<Rightarrow> ps)
     @ map (rawPattern re) (case statusBarPatternsOf m of None \<Rightarrow> [] | Some ps \<Rightarrow> ps)"

definition guardedRun :: "(jsstring \<Rightarrow> jsstring) list \<Rightarrow> jsstring \<Rightarrow> jsstring" where
  "guardedRun gs t = foldl (\<lambda>t g. guarded g t) t gs"

text \<open>Two exact entries, the second of which writes the key of the first.\<close>

definition chainMap :: localization where
  "chainMap =
     \<lparr>webviews = Some \<lparr>patterns = None, exact = Some [(asc ''b'', asc ''c''), (asc ''a'', asc ''b'')]\<rparr>,
      statusBar = None\<rparr>"

definition chainSource :: jsstring where
  "chainSource = [dquote] @ asc ''a'' @ [dquote]"

text \<open>A pattern that is rolled back, and a later pattern that removes what made it unsafe.\<close>

definition contextMap :: localization where
  "contextMap =
     \<lparr>webviews = Some \<lparr>patterns = Some [patHome, \<lparr>match = asc ''export '', replace = []\<rparr>], exact = None\<rparr>,
      statusBar = None\<rparr>"

definition contextSource :: jsstring where
  "contextSource = asc ''export Home''"

text \<open>
  A text cut at its quote characters: the word before the first quote, then every quote
  with the word that follows it. \<open>joinQuotes\<close> puts the text together again.
\<close>

definition isQuote :: "nat \<Rightarrow> bool" where
  "isQuote c = (c \<in> set quoteChars)"

definition quoteFree :: "jsstring \<Rightarrow> bool" where
  "quoteFree w = list_all (\<lambda>c. \<not> isQuote c) w"

fun splitQuotes :: "jsstring \<Rightarrow> jsstring \<times> (nat \<times> jsstring) list" where
  "splitQuotes [] = ([], [])"
| "splitQuotes (c # cs) =
     (case splitQuotes cs of (w, tks) \<Rightarrow> if isQuote c then ([], (c, w) # tks) else (c # w, tks))"

fun joinTokens :: "(nat \<times> jsstring) list \<Rightarrow> jsstring" where
  "joinTokens [] = []"
| "joinTokens ((q, w) # tks) = q # w @ joinTokens tks"

definition joinQuotes :: "jsstring \<times> (nat \<times> jsstring) list \<Rightarrow> jsstring" where
  "joinQuotes p = (case p of (w, tks) \<Rightarrow> w @ joinTokens tks)"

text \<open>Every token with the quote that follows its word, if there is one.\<close>

fun triples :: "(nat \<times> jsstring) list \<Rightarrow> (nat \<times> nat option \<times> jsstring) list" where
  "triples [] = []"
| "triples ((q, w) # tks) = (q, (case tks of [] \<Rightarrow> None | (q', w') # r \<Rightarrow> Some q'), w) # triples tks"

text \<open>A word that is the key \<open>en\<close> between two equal quotes.\<close>

definition quotedKey :: "jsstring \<Rightarrow> nat \<times> nat option \<times> jsstring \<Rightarrow> bool" where
  "quotedKey en x = (case x of (q, nq, w) \<Rightarrow> nq = Some q \<and> w = en)"

text \<open>Two quoted occurrences of the key \<open>en\<close> that share a quote.\<close>

fun sharedQuote :: "jsstring \<Rightarrow> (nat \<times> nat option \<times> jsstring) list \<Rightarrow> bool" where
  "sharedQuote en (x # y # r) = ((quotedKey en x \<and> quotedKey en y) \<or> sharedQuote en (y # r))"
| "sharedQuote en r = False"

text \<open>The words of the tokens rewritten one by one, each seen with its two quotes.\<close>

definition mapWords :: "(nat \<Rightarrow> nat option \<Rightarrow> jsstring \<Rightarrow> jsstring) \<Rightarrow> (nat \<times> jsstring) list \<Rightarrow> (nat \<times> jsstring) list" where
  "mapWords f tks = map (\<lambda>(q, nq, w). (q, f q nq w)) (triples tks)"

text \<open>Tokens as \<open>splitQuotes\<close> gives them: quotes, and words without quotes.\<close>

definition wfTokens :: "(nat \<times> jsstring) list \<Rightarrow> bool" where
  "wfTokens tks = list_all (\<lambda>(q, w). isQuote q \<and> quoteFree w) tks"

text \<open>The word-by-word form of an exact entry: the key between two equal quotes becomes the translation.\<close>

definition translateWord :: "jsstring \<Rightarrow> jsstring \<Rightarrow> nat \<Rightarrow> nat option \<Rightarrow> jsstring \<Rightarrow> jsstring" where
  "translateWord en zh q nq w = (if nq = Some q \<and> w = en then zh else w)"

text \<open>The keys of the entries that the exact pass does not skip.\<close>

definition exactKeys :: "(jsstring \<times> jsstring) list \<Rightarrow> jsstring list" where
  "exactKeys es = map fst (filter (\<lambda>(en, zh). \<not> startsWith en (asc ''_'')) es)"

text \<open>
  Entries whose keys and translations hold no quote character and none of whose
  translations is a key.
\<close>

definition plainEntries :: "(jsstring \<times> jsstring) list \<Rightarrow> bool" where
  "plainEntries es =
     list_all (\<lambda>(en, zh). startsWith en (asc ''_'')
                \<or> (quoteFree en \<and> quoteFree zh \<and> zh \<notin> set (exactKeys es))) es"

definition goodEntry :: "jsstring list \<Rightarrow> jsstring \<Rightarrow> jsstring \<Rightarrow> bool" where
  "goodEntry K en zh = (quoteFree en \<and> quoteFree zh \<and> en \<in> set K \<and> zh \<notin> set K)"

text \<open>A text in which no key of \<open>K\<close> stands twice in quotes with a shared quote.\<close>

definition noSharedQuote :: "jsstring list \<Rightarrow> jsstring \<Rightarrow> bool" where
  "noSharedQuote K t = list_all (\<lambda>en. \<not> sharedQuote en (triples (snd (splitQuotes t)))) K"

text \<open>The text after one call of \<open>replaceStrings\<close>, and after a second call on that text.\<close>

definition firstRun :: "regexp \<Rightarrow> plugin \<Rightarrow> jsstring \<Rightarrow> jsstring \<Rightarrow> jsstring" where
  "firstRun re this source filename = fst (replaceStrings re this source filename)"

definition secondRun :: "regexp \<Rightarrow> plugin \<Rightarrow> jsstring \<Rightarrow> jsstring \<Rightarrow> jsstring" where
  "secondRun re this source filename =
     (case replaceStrings re this source filename of
        (out, this', msgs) \<Rightarrow> fst (replaceStrings re this' out filename))"

text \<open>All the patterns of a map, and its exact entries.\<close>

definition patternsOf :: "localization \<Rightarrow> pattern list" where
  "patternsOf m =
     (case webviewPatternsOf m of None \<Rightarrow> [] | Some ps \<Rightarrow> ps)
     @ (case statusBarPatternsOf m of None \<Rightarrow> [] | Some ps \<Rightarrow> ps)"

definition entriesOf :: "localization \<Rightarrow> (jsstring \<times> jsstring) list" where
  "entriesOf m = (case exactOf m of None \<Rightarrow> [] | Some es \<Rightarrow> es)"

text \<open>
  The four texts that the two rules of \<open>rollbackMap\<close> make of \<open>rollbackSource\<close>: the
  source, the source with the exact entry applied, with the pattern applied, with both.
\<close>

definition rollbackOpen :: jsstring where
  "rollbackOpen = asc ''export Home;t='' @ [dquote] @ zhOpen @ [dquote]"

definition rollbackHome :: jsstring where
  "rollbackHome = asc ''export '' @ zhTranslation @ asc '';t='' @ [dquote] @ asc ''Open'' @ [dquote]"

definition rollbackBoth :: jsstring where
  "rollbackBoth = asc ''export '' @ zhTranslation @ asc '';t='' @ [dquote] @ zhOpen @ [dquote]"

definition rollbackClass :: "jsstring \<Rightarrow> bool" where
  "rollbackClass t = (t \<in> set [rollbackSource, rollbackOpen, rollbackHome, rollbackBoth])"

section \<open>The safety check\<close>

lemma forEachQuote_fst: "fst (forEachQuote en zh qs (t, b)) = fst (forEachQuote en zh qs (t, False))"
  by (induction qs arbitrary: t b) (simp_all add: Let_def)

lemma forEachQuote_snd_mono: "b \<Longrightarrow> snd (forEachQuote en zh qs (t, b))"
  by (induction qs arbitrary: t) (simp_all add: Let_def)

lemma forEachQuote_changed:
  "fst (forEachQuote en zh qs (t, b)) \<noteq> t \<Longrightarrow> snd (forEachQuote en zh qs (t, b))"
proof (induction qs arbitrary: t b)
  case Nil
  then show ?case by simp
next
  case (Cons q qs)
  let ?n = "replaceLiteral (q # en @ [q]) (q # zh @ [q]) t"
  show ?case
  proof (cases "?n = t")
    case True
    with Cons show ?thesis by (simp add: Let_def)
  next
    case False
    then show ?thesis by (simp add: Let_def forEachQuote_snd_mono)
  qed
qed

lemma forEachQuote_unchanged:
  "\<not> snd (forEachQuote en zh qs (t, False)) \<Longrightarrow> fst (forEachQuote en zh qs (t, False)) = t"
  using forEachQuote_changed by blast

lemma exactEntry_skip: "startsWith en (asc ''_'') \<Longrightarrow> exactEntry (en, zh) st = st"
  by (simp add: exactEntry_def)

lemma exactEntry_rollback:
  assumes "\<not> startsWith en (asc ''_'')"
    and "hasChineseIdentifier (exactText en zh (result st))"
    and "\<not> hasChineseIdentifier (result st)"
  shows "exactEntry (en, zh) st =
           st\<lparr>rollbacks := rollbacks st + 1, warnings := warnings st @ [RollbackExact en zh]\<rparr>"
proof -
  obtain res replaced where fq: "forEachQuote en zh quoteChars (result st, False) = (res, replaced)"
    by (cases "forEachQuote en zh quoteChars (result st, False)")
  then have res: "res = exactText en zh (result st)" by (simp add: exactText_def)
  with assms have "res \<noteq> result st" by auto
  with fq have "replaced" using forEachQuote_changed[of en zh quoteChars "result st" False] by simp
  with assms fq res show ?thesis by (simp add: exactEntry_def)
qed

lemma exactEntry_result:
  "result (exactEntry (en, zh) st) =
     (if startsWith en (asc ''_'') then result st
      else if hasChineseIdentifier (exactText en zh (result st)) \<and> \<not> hasChineseIdentifier (result st)
        then result st
      else exactText en zh (result st))"
proof -
  obtain res replaced where fq: "forEachQuote en zh quoteChars (result st, False) = (res, replaced)"
    by (cases "forEachQuote en zh quoteChars (result st, False)")
  then have res: "res = exactText en zh (result st)" by (simp add: exactText_def)
  have "\<not> replaced \<Longrightarrow> res = result st"
    using fq forEachQuote_unchanged[of en zh quoteChars "result st"] by simp
  with fq res show ?thesis by (auto simp: exactEntry_def Let_def)
qed

lemma exactEntry_safe:
  "\<not> hasChineseIdentifier (result st) \<Longrightarrow> \<not> hasChineseIdentifier (result (exactEntry e st))"
  by (cases e) (simp add: exactEntry_result)

lemma exactPass_safe:
  "\<not> hasChineseIdentifier (result st) \<Longrightarrow> \<not> hasChineseIdentifier (result (exactPass es st))"
  by (induction es arbitrary: st) (simp_all add: exactEntry_safe)

lemma patternEntry_result:
  "result (patternEntry re warn p st) =
     (case re (match p) of None \<Rightarrow> result st
      | Some regex \<Rightarrow>
          if hasChineseIdentifier (regex (replace p) (result st)) \<and> \<not> hasChineseIdentifier (result st)
          then result st else regex (replace p) (result st))"
  by (simp add: patternEntry_def Let_def split: option.splits)

lemma patternEntry_safe:
  "\<not> hasChineseIdentifier (result st) \<Longrightarrow> \<not> hasChineseIdentifier (result (patternEntry re warn p st))"
  by (simp add: patternEntry_result split: option.splits)

lemma patternPass_safe:
  "\<not> hasChineseIdentifier (result st) \<Longrightarrow> \<not> hasChineseIdentifier (result (patternPass re warn ps st))"
  by (induction ps arbitrary: st) (simp_all add: patternEntry_safe)

lemma runRules_safe:
  "\<not> hasChineseIdentifier source \<Longrightarrow> \<not> hasChineseIdentifier (result (runRules re m source))"
  by (simp add: runRules_def pass1_def pass2_def pass3_def start_def exactPass_safe patternPass_safe
      split: option.splits)

lemma replaceStrings_fst:
  "fst (replaceStrings re this source filename) =
     (case l10nMap this of None \<Rightarrow> source | Some m \<Rightarrow> result (runRules re m source))"
  by (simp add: replaceStrings_def Let_def split: option.splits)

lemma patternEntry_rollback:
  assumes "re (match p) = Some regex"
    and "hasChineseIdentifier (regex (replace p) (result st))"
    and "\<not> hasChineseIdentifier (result st)"
  shows "patternEntry re warn p st =
           st\<lparr>rollbacks := rollbacks st + 1, warnings := warnings st @ [warn (match p)]\<rparr>"
  using assms by (simp add: patternEntry_def)

text \<open>
  C1. A text without a corruption signature stays without one through \<open>replaceStrings\<close>:
  an exact entry or a pattern whose result newly contains a signature leaves the text as
  it was before that rule, adds one to the rollbacks and nothing to the replacements.
\<close>

theorem replaceStrings_no_new_signature:
  "(\<not> hasChineseIdentifier source \<longrightarrow>
      \<not> hasChineseIdentifier (fst (replaceStrings re this source filename)))
   \<and> (\<not> startsWith en (asc ''_'') \<and> hasChineseIdentifier (exactText en zh (result st))
        \<and> \<not> hasChineseIdentifier (result st) \<longrightarrow>
      exactEntry (en, zh) st =
        st\<lparr>rollbacks := rollbacks st + 1, warnings := warnings st @ [RollbackExact en zh]\<rparr>)
   \<and> (re (match p) = Some regex \<and> hasChineseIdentifier (regex (replace p) (result st'))
        \<and> \<not> hasChineseIdentifier (result st') \<longrightarrow>
      patternEntry re warn p st' =
        st'\<lparr>rollbacks := rollbacks st' + 1, warnings := warnings st' @ [warn (match p)]\<rparr>)"
proof (intro conjI impI)
  assume "\<not> hasChineseIdentifier source"
  then show "\<not> hasChineseIdentifier (fst (replaceStrings re this source filename))"
    by (simp add: replaceStrings_fst runRules_safe split: option.splits)
next
  assume "\<not> startsWith en (asc ''_'') \<and> hasChineseIdentifier (exactText en zh (result st))
        \<and> \<not> hasChineseIdentifier (result st)"
  then show "exactEntry (en, zh) st =
        st\<lparr>rollbacks := rollbacks st + 1, warnings := warnings st @ [RollbackExact en zh]\<rparr>"
    by (simp add: exactEntry_rollback)
next
  assume "re (match p) = Some regex \<and> hasChineseIdentifier (regex (replace p) (result st'))
        \<and> \<not> hasChineseIdentifier (result st')"
  then show "patternEntry re warn p st' =
        st'\<lparr>rollbacks := rollbacks st' + 1, warnings := warnings st' @ [warn (match p)]\<rparr>"
    by (simp add: patternEntry_rollback)
qed

theorem replaceStrings_no_new_signature_witness:
  "\<not> hasChineseIdentifier rollbackSource
   \<and> \<not> hasChineseIdentifier (fst (replaceStrings literalRegExp (pluginWith rollbackMap) rollbackSource (asc ''a.js'')))
   \<and> exactEntry (asc ''Open'', zhTranslation @ asc ''('') (start rollbackSource) =
        (start rollbackSource)\<lparr>rollbacks := 1,
          warnings := [RollbackExact (asc ''Open'') (zhTranslation @ asc ''('')]\<rparr>
   \<and> patternEntry literalRegExp RollbackPattern \<lparr>match = asc ''Home'', replace = zhTranslation\<rparr>
        (start rollbackSource) =
        (start rollbackSource)\<lparr>rollbacks := 1, warnings := [RollbackPattern (asc ''Home'')]\<rparr>"
proof -
  have clean: "\<not> hasChineseIdentifier rollbackSource"
    by code_simp
  have skip: "\<not> startsWith (asc ''Open'') (asc ''_'')"
    by code_simp
  have ex: "hasChineseIdentifier (exactText (asc ''Open'') (zhTranslation @ asc ''('') rollbackSource)"
    by code_simp
  have re: "literalRegExp (asc ''Home'') = Some (\<lambda>template text. replaceLiteral (asc ''Home'') template text)"
    by (simp add: literalRegExp_def asc_def syntaxChars_def)
  have pat: "hasChineseIdentifier (replaceLiteral (asc ''Home'') zhTranslation rollbackSource)"
    by code_simp
  note inst = replaceStrings_no_new_signature
    [of rollbackSource literalRegExp "pluginWith rollbackMap" "asc ''a.js''"
        "asc ''Open''" "zhTranslation @ asc ''(''" "start rollbackSource"
        "\<lparr>match = asc ''Home'', replace = zhTranslation\<rparr>"
        "\<lambda>template text. replaceLiteral (asc ''Home'') template text"
        "start rollbackSource" RollbackPattern]
  from inst clean skip ex re pat show ?thesis
    by (simp add: start_def)
qed


section \<open>The passes\<close>
lemma exactPass_append: "exactPass (es1 @ es2) st = exactPass es2 (exactPass es1 st)"
  by (induction es1 arbitrary: st) simp_all

lemma patternPass_append:
  "patternPass re warn (ps1 @ ps2) st = patternPass re warn ps2 (patternPass re warn ps1 st)"
  by (induction ps1 arbitrary: st) simp_all

lemma exactEntry_unfold:
  assumes "forEachQuote en zh quoteChars (result st, False) = (res, replaced)"
  shows "exactEntry (en, zh) st =
     (if startsWith en (asc ''_'') then st
      else if replaced \<and> hasChineseIdentifier res \<and> \<not> hasChineseIdentifier (result st)
        then st\<lparr>rollbacks := rollbacks st + 1, warnings := warnings st @ [RollbackExact en zh]\<rparr>
      else if replaced then st\<lparr>result := res, replacements := replacements st + 1\<rparr>
      else st\<lparr>result := res\<rparr>)"
  using assms by (simp add: exactEntry_def Let_def)

lemma exactEntry_ahead:
  assumes "ahead k st st'"
  shows "ahead k (exactEntry e st) (exactEntry e st')"
proof -
  obtain en zh where e: "e = (en, zh)" by (cases e)
  obtain res replaced where fq: "forEachQuote en zh quoteChars (result st, False) = (res, replaced)"
    by (cases "forEachQuote en zh quoteChars (result st, False)")
  from assms have r: "result st' = result st" by (simp add: ahead_def)
  with fq have fq': "forEachQuote en zh quoteChars (result st', False) = (res, replaced)" by simp
  show ?thesis
    unfolding e exactEntry_unfold[OF fq] exactEntry_unfold[OF fq']
    using assms by (simp add: ahead_def)
qed

lemma exactPass_ahead: "ahead k st st' \<Longrightarrow> ahead k (exactPass es st) (exactPass es st')"
  by (induction es arbitrary: st st') (simp_all add: exactEntry_ahead)

lemma patternEntry_ahead:
  assumes "ahead k st st'"
  shows "ahead k (patternEntry re warn p st) (patternEntry re warn p st')"
proof (cases "re (match p)")
  case None
  with assms show ?thesis by (simp add: ahead_def patternEntry_def)
next
  case (Some regex)
  from assms have r: "result st' = result st" by (simp add: ahead_def)
  have a: "patternEntry re warn p st =
     (if hasChineseIdentifier (regex (replace p) (result st)) \<and> \<not> hasChineseIdentifier (result st)
      then st\<lparr>rollbacks := rollbacks st + 1, warnings := warnings st @ [warn (match p)]\<rparr>
      else if regex (replace p) (result st) \<noteq> result st
        then st\<lparr>result := regex (replace p) (result st), replacements := replacements st + 1\<rparr>
      else st\<lparr>result := regex (replace p) (result st)\<rparr>)" for st
    using Some by (simp add: patternEntry_def Let_def)
  show ?thesis
    unfolding a[of st] a[of st'] r
    using assms by (simp add: ahead_def)
qed

lemma patternPass_ahead:
  "ahead k st st' \<Longrightarrow> ahead k (patternPass re warn ps st) (patternPass re warn ps st')"
  by (induction ps arbitrary: st st') (simp_all add: patternEntry_ahead)

lemma exactPass_result_cong:
  "result st = result st' \<Longrightarrow> result (exactPass es st) = result (exactPass es st')"
proof (induction es arbitrary: st st')
  case Nil
  then show ?case by simp
next
  case (Cons e es)
  have "result (exactEntry e st) = result (exactEntry e st')"
    using Cons.prems by (cases e) (simp add: exactEntry_result)
  from Cons.IH[OF this] show ?case by simp
qed

lemma patternPass_result_cong:
  "result st = result st' \<Longrightarrow>
   result (patternPass re warn ps st) = result (patternPass re warn' ps st')"
proof (induction ps arbitrary: st st')
  case Nil
  then show ?case by simp
next
  case (Cons p ps)
  have "result (patternEntry re warn p st) = result (patternEntry re warn' p st')"
    using Cons.prems by (simp add: patternEntry_result split: option.splits)
  from Cons.IH[OF this] show ?case by simp
qed

lemma pass1_result_cong: "result st = result st' \<Longrightarrow> result (pass1 m st) = result (pass1 m st')"
  by (auto simp: pass1_def split: option.splits intro: exactPass_result_cong)

lemma pass2_result_cong: "result st = result st' \<Longrightarrow> result (pass2 re m st) = result (pass2 re m st')"
  by (auto simp: pass2_def split: option.splits intro: patternPass_result_cong)

lemma pass3_result_cong: "result st = result st' \<Longrightarrow> result (pass3 re m st) = result (pass3 re m st')"
  by (auto simp: pass3_def split: option.splits intro: patternPass_result_cong)

lemma runRules_composition:
  "result (runRules re m source) =
     result (pass3 re m (start (result (pass2 re m (start (result (pass1 m (start source))))))))"
proof -
  have a: "result (pass2 re m (pass1 m (start source))) =
           result (pass2 re m (start (result (pass1 m (start source)))))"
    by (rule pass2_result_cong) (simp add: start_def)
  have "result (pass3 re m (pass2 re m (pass1 m (start source)))) =
        result (pass3 re m (start (result (pass2 re m (pass1 m (start source))))))"
    by (rule pass3_result_cong) (simp add: start_def)
  with a show ?thesis by (simp add: runRules_def)
qed

lemma exactPass_rollback_local:
  assumes "\<not> startsWith en (asc ''_'')"
    and "hasChineseIdentifier (exactText en zh (result (exactPass es1 st)))"
    and "\<not> hasChineseIdentifier (result (exactPass es1 st))"
  shows "exactPass (es1 @ (en, zh) # es2) st =
           exactPass es2 ((exactPass es1 st)\<lparr>rollbacks := rollbacks (exactPass es1 st) + 1,
              warnings := warnings (exactPass es1 st) @ [RollbackExact en zh]\<rparr>)"
    and "ahead 1 (exactPass (es1 @ es2) st) (exactPass (es1 @ (en, zh) # es2) st)"
proof -
  let ?st1 = "exactPass es1 st"
  let ?st2 = "?st1\<lparr>rollbacks := rollbacks ?st1 + 1, warnings := warnings ?st1 @ [RollbackExact en zh]\<rparr>"
  have step: "exactEntry (en, zh) ?st1 = ?st2"
    using assms by (rule exactEntry_rollback)
  then show full: "exactPass (es1 @ (en, zh) # es2) st = exactPass es2 ?st2"
    by (simp add: exactPass_append)
  have "ahead 1 ?st1 ?st2" by (simp add: ahead_def)
  then have "ahead 1 (exactPass es2 ?st1) (exactPass es2 ?st2)" by (rule exactPass_ahead)
  with full show "ahead 1 (exactPass (es1 @ es2) st) (exactPass (es1 @ (en, zh) # es2) st)"
    by (simp add: exactPass_append)
qed

lemma patternPass_rollback_local:
  assumes "re (match p) = Some regex"
    and "hasChineseIdentifier (regex (replace p) (result (patternPass re warn ps1 st)))"
    and "\<not> hasChineseIdentifier (result (patternPass re warn ps1 st))"
  shows "patternPass re warn (ps1 @ p # ps2) st =
           patternPass re warn ps2 ((patternPass re warn ps1 st)\<lparr>rollbacks := rollbacks (patternPass re warn ps1 st) + 1,
              warnings := warnings (patternPass re warn ps1 st) @ [warn (match p)]\<rparr>)"
    and "ahead 1 (patternPass re warn (ps1 @ ps2) st) (patternPass re warn (ps1 @ p # ps2) st)"
proof -
  let ?st1 = "patternPass re warn ps1 st"
  let ?st2 = "?st1\<lparr>rollbacks := rollbacks ?st1 + 1, warnings := warnings ?st1 @ [warn (match p)]\<rparr>"
  have step: "patternEntry re warn p ?st1 = ?st2"
    using assms by (rule patternEntry_rollback)
  then show full: "patternPass re warn (ps1 @ p # ps2) st = patternPass re warn ps2 ?st2"
    by (simp add: patternPass_append)
  have "ahead 1 ?st1 ?st2" by (simp add: ahead_def)
  then have "ahead 1 (patternPass re warn ps2 ?st1) (patternPass re warn ps2 ?st2)"
    by (rule patternPass_ahead)
  with full show "ahead 1 (patternPass re warn (ps1 @ ps2) st) (patternPass re warn (ps1 @ p # ps2) st)"
    by (simp add: patternPass_append)
qed

lemma patternEntry_malformed:
  "re (match p) = None \<Longrightarrow>
   patternEntry re warn p st = st\<lparr>warnings := warnings st @ [RegexError (match p)]\<rparr>"
  by (simp add: patternEntry_def)

lemma patternPass_malformed:
  assumes "re (match p) = None"
  shows "patternPass re warn (ps1 @ p # ps2) st =
           patternPass re warn ps2 ((patternPass re warn ps1 st)\<lparr>
              warnings := warnings (patternPass re warn ps1 st) @ [RegexError (match p)]\<rparr>)"
    and "ahead 0 (patternPass re warn (ps1 @ ps2) st) (patternPass re warn (ps1 @ p # ps2) st)"
proof -
  let ?st1 = "patternPass re warn ps1 st"
  let ?st2 = "?st1\<lparr>warnings := warnings ?st1 @ [RegexError (match p)]\<rparr>"
  have step: "patternEntry re warn p ?st1 = ?st2"
    using assms by (rule patternEntry_malformed)
  then show full: "patternPass re warn (ps1 @ p # ps2) st = patternPass re warn ps2 ?st2"
    by (simp add: patternPass_append)
  have "ahead 0 ?st1 ?st2" by (simp add: ahead_def)
  then have "ahead 0 (patternPass re warn ps2 ?st1) (patternPass re warn ps2 ?st2)"
    by (rule patternPass_ahead)
  with full show "ahead 0 (patternPass re warn (ps1 @ ps2) st) (patternPass re warn (ps1 @ p # ps2) st)"
    by (simp add: patternPass_append)
qed


text \<open>
  C2. A rollback is local to one rule. When an exact entry (or a pattern) newly introduces
  a corruption signature on the text that the earlier rules of its pass produced, the
  state after the earlier rules is kept (with one more rollback and its warning) and the
  later rules run on it: the pass ends with the text and the replacements of the pass
  without that rule, and with one more rollback. In the example, the pattern that would
  produce \<open>export\<close> followed by a Chinese word is discarded while the exact entry for
  \<open>Open\<close> is applied.
\<close>

theorem rollback_is_local:
  "(\<not> startsWith en (asc ''_'') \<and> hasChineseIdentifier (exactText en zh (result (exactPass es1 st)))
      \<and> \<not> hasChineseIdentifier (result (exactPass es1 st)) \<longrightarrow>
      exactPass (es1 @ (en, zh) # es2) st =
        exactPass es2 ((exactPass es1 st)\<lparr>rollbacks := rollbacks (exactPass es1 st) + 1,
           warnings := warnings (exactPass es1 st) @ [RollbackExact en zh]\<rparr>)
      \<and> result (exactPass (es1 @ (en, zh) # es2) st) = result (exactPass (es1 @ es2) st)
      \<and> replacements (exactPass (es1 @ (en, zh) # es2) st) = replacements (exactPass (es1 @ es2) st)
      \<and> rollbacks (exactPass (es1 @ (en, zh) # es2) st) = rollbacks (exactPass (es1 @ es2) st) + 1)
   \<and> (re (match p) = Some regex
      \<and> hasChineseIdentifier (regex (replace p) (result (patternPass re warn ps1 st')))
      \<and> \<not> hasChineseIdentifier (result (patternPass re warn ps1 st')) \<longrightarrow>
      patternPass re warn (ps1 @ p # ps2) st' =
        patternPass re warn ps2 ((patternPass re warn ps1 st')\<lparr>
           rollbacks := rollbacks (patternPass re warn ps1 st') + 1,
           warnings := warnings (patternPass re warn ps1 st') @ [warn (match p)]\<rparr>)
      \<and> result (patternPass re warn (ps1 @ p # ps2) st') = result (patternPass re warn (ps1 @ ps2) st')
      \<and> replacements (patternPass re warn (ps1 @ p # ps2) st') =
          replacements (patternPass re warn (ps1 @ ps2) st')
      \<and> rollbacks (patternPass re warn (ps1 @ p # ps2) st') =
          rollbacks (patternPass re warn (ps1 @ ps2) st') + 1)
   \<and> runRules literalRegExp rollbackMap rollbackSource =
       \<lparr>result = asc ''export Home;t='' @ [dquote] @ zhOpen @ [dquote], replacements = 1,
        rollbacks = 1, warnings = [RollbackPattern (asc ''Home'')]\<rparr>"
proof (intro conjI impI)
  assume h: "\<not> startsWith en (asc ''_'') \<and> hasChineseIdentifier (exactText en zh (result (exactPass es1 st)))
      \<and> \<not> hasChineseIdentifier (result (exactPass es1 st))"
  then have h1: "\<not> startsWith en (asc ''_'')"
    and h2: "hasChineseIdentifier (exactText en zh (result (exactPass es1 st)))"
    and h3: "\<not> hasChineseIdentifier (result (exactPass es1 st))" by simp_all
  show "exactPass (es1 @ (en, zh) # es2) st =
        exactPass es2 ((exactPass es1 st)\<lparr>rollbacks := rollbacks (exactPass es1 st) + 1,
           warnings := warnings (exactPass es1 st) @ [RollbackExact en zh]\<rparr>)"
    using h1 h2 h3 by (rule exactPass_rollback_local(1))
  have a: "ahead 1 (exactPass (es1 @ es2) st) (exactPass (es1 @ (en, zh) # es2) st)"
    using h1 h2 h3 by (rule exactPass_rollback_local(2))
  from a show "result (exactPass (es1 @ (en, zh) # es2) st) = result (exactPass (es1 @ es2) st)"
    by (simp add: ahead_def)
  from a show "replacements (exactPass (es1 @ (en, zh) # es2) st) = replacements (exactPass (es1 @ es2) st)"
    by (simp add: ahead_def)
  from a show "rollbacks (exactPass (es1 @ (en, zh) # es2) st) = rollbacks (exactPass (es1 @ es2) st) + 1"
    by (simp add: ahead_def)
next
  assume h: "re (match p) = Some regex
      \<and> hasChineseIdentifier (regex (replace p) (result (patternPass re warn ps1 st')))
      \<and> \<not> hasChineseIdentifier (result (patternPass re warn ps1 st'))"
  then have h1: "re (match p) = Some regex"
    and h2: "hasChineseIdentifier (regex (replace p) (result (patternPass re warn ps1 st')))"
    and h3: "\<not> hasChineseIdentifier (result (patternPass re warn ps1 st'))" by simp_all
  show "patternPass re warn (ps1 @ p # ps2) st' =
        patternPass re warn ps2 ((patternPass re warn ps1 st')\<lparr>
           rollbacks := rollbacks (patternPass re warn ps1 st') + 1,
           warnings := warnings (patternPass re warn ps1 st') @ [warn (match p)]\<rparr>)"
    using h1 h2 h3 by (rule patternPass_rollback_local(1))
  have a: "ahead 1 (patternPass re warn (ps1 @ ps2) st') (patternPass re warn (ps1 @ p # ps2) st')"
    using h1 h2 h3 by (rule patternPass_rollback_local(2))
  from a show "result (patternPass re warn (ps1 @ p # ps2) st') = result (patternPass re warn (ps1 @ ps2) st')"
    by (simp add: ahead_def)
  from a show "replacements (patternPass re warn (ps1 @ p # ps2) st') =
          replacements (patternPass re warn (ps1 @ ps2) st')"
    by (simp add: ahead_def)
  from a show "rollbacks (patternPass re warn (ps1 @ p # ps2) st') =
          rollbacks (patternPass re warn (ps1 @ ps2) st') + 1"
    by (simp add: ahead_def)
next
  show "runRules literalRegExp rollbackMap rollbackSource =
       \<lparr>result = asc ''export Home;t='' @ [dquote] @ zhOpen @ [dquote], replacements = 1,
        rollbacks = 1, warnings = [RollbackPattern (asc ''Home'')]\<rparr>"
    by code_simp
qed

theorem rollback_is_local_witness:
  "exactPass threeEntries (start threeSource) =
     \<lparr>result = asc ''t='' @ [dquote] @ zhOpen @ [dquote] @ asc '';u='' @ [dquote] @ asc ''Save''
         @ [dquote] @ asc '';v='' @ [dquote] @ zhClose @ [dquote],
      replacements = 2, rollbacks = 1,
      warnings = [RollbackExact (asc ''Save'') (zhTranslation @ asc ''('')]\<rparr>
   \<and> result (exactPass ([(asc ''Open'', zhOpen)] @ (asc ''Save'', zhTranslation @ asc ''('')
         # [(asc ''Close'', zhClose)]) (start threeSource)) =
       result (exactPass ([(asc ''Open'', zhOpen)] @ [(asc ''Close'', zhClose)]) (start threeSource))
   \<and> rollbacks (exactPass ([(asc ''Open'', zhOpen)] @ (asc ''Save'', zhTranslation @ asc ''('')
         # [(asc ''Close'', zhClose)]) (start threeSource)) =
       rollbacks (exactPass ([(asc ''Open'', zhOpen)] @ [(asc ''Close'', zhClose)]) (start threeSource)) + 1
   \<and> patternPass literalRegExp RollbackPattern [patOpen, patHome, patT] (start rollbackSource) =
     \<lparr>result = asc ''export Home;s='' @ [dquote] @ zhOpen @ [dquote],
      replacements = 2, rollbacks = 1, warnings = [RollbackPattern (asc ''Home'')]\<rparr>
   \<and> result (patternPass literalRegExp RollbackPattern ([patOpen] @ patHome # [patT]) (start rollbackSource)) =
       result (patternPass literalRegExp RollbackPattern ([patOpen] @ [patT]) (start rollbackSource))"
proof -
  let ?st1 = "exactPass [(asc ''Open'', zhOpen)] (start threeSource)"
  let ?pt1 = "patternPass literalRegExp RollbackPattern [patOpen] (start rollbackSource)"
  have e1: "\<not> startsWith (asc ''Save'') (asc ''_'')"
    by code_simp
  have e2: "hasChineseIdentifier (exactText (asc ''Save'') (zhTranslation @ asc ''('') (result ?st1))"
    by code_simp
  have e3: "\<not> hasChineseIdentifier (result ?st1)"
    by code_simp
  have p1: "literalRegExp (match patHome) = Some (\<lambda>template text. replaceLiteral (asc ''Home'') template text)"
    by (simp add: literalRegExp_def patHome_def asc_def syntaxChars_def)
  have p2: "hasChineseIdentifier (replaceLiteral (asc ''Home'') (replace patHome) (result ?pt1))"
    by code_simp
  have p3: "\<not> hasChineseIdentifier (result ?pt1)"
    by code_simp
  note inst = rollback_is_local
    [where en = "asc ''Save''" and zh = "zhTranslation @ asc ''(''" and ?es1.0 = "[(asc ''Open'', zhOpen)]"
       and st = "start threeSource" and ?es2.0 = "[(asc ''Close'', zhClose)]"
       and re = literalRegExp and p = patHome
       and regex = "\<lambda>template text. replaceLiteral (asc ''Home'') template text"
       and warn = RollbackPattern and ?ps1.0 = "[patOpen]" and st' = "start rollbackSource"
       and ?ps2.0 = "[patT]"]
  have b: "exactPass threeEntries (start threeSource) =
     \<lparr>result = asc ''t='' @ [dquote] @ zhOpen @ [dquote] @ asc '';u='' @ [dquote] @ asc ''Save''
         @ [dquote] @ asc '';v='' @ [dquote] @ zhClose @ [dquote],
      replacements = 2, rollbacks = 1,
      warnings = [RollbackExact (asc ''Save'') (zhTranslation @ asc ''('')]\<rparr>"
    by code_simp
  have c: "patternPass literalRegExp RollbackPattern [patOpen, patHome, patT] (start rollbackSource) =
     \<lparr>result = asc ''export Home;s='' @ [dquote] @ zhOpen @ [dquote],
      replacements = 2, rollbacks = 1, warnings = [RollbackPattern (asc ''Home'')]\<rparr>"
    by code_simp
  from inst e1 e2 e3 p1 p2 p3 b c show ?thesis by blast
qed

text \<open>
  C4. The three passes run in a fixed order, each on the text the previous one returned:
  the text of a run is the text of the status-bar pass, run on the text of the webview
  pattern pass, run on the text of the exact pass, run on the source. In the example
  each rule set matches only what the set before it wrote.
\<close>

theorem passes_in_order:
  "result (runRules re m source) =
     result (pass3 re m (start (result (pass2 re m (start (result (pass1 m (start source))))))))
   \<and> result (pass1 orderMap (start orderSource)) = [dquote] @ asc ''Close'' @ [dquote] @ asc '' Shut Close''
   \<and> result (pass2 literalRegExp orderMap (pass1 orderMap (start orderSource))) =
       [dquote] @ asc ''Shut'' @ [dquote] @ asc '' Shut Shut''
   \<and> runRules literalRegExp orderMap orderSource =
       \<lparr>result = [dquote] @ asc ''End'' @ [dquote] @ asc '' End End'', replacements = 3,
        rollbacks = 0, warnings = []\<rparr>"
proof (intro conjI)
  show "result (runRules re m source) =
     result (pass3 re m (start (result (pass2 re m (start (result (pass1 m (start source))))))))"
    by (rule runRules_composition)
  show "result (pass1 orderMap (start orderSource)) = [dquote] @ asc ''Close'' @ [dquote] @ asc '' Shut Close''"
    by code_simp
  show "result (pass2 literalRegExp orderMap (pass1 orderMap (start orderSource))) =
       [dquote] @ asc ''Shut'' @ [dquote] @ asc '' Shut Shut''"
    by code_simp
  show "runRules literalRegExp orderMap orderSource =
       \<lparr>result = [dquote] @ asc ''End'' @ [dquote] @ asc '' End End'', replacements = 3,
        rollbacks = 0, warnings = []\<rparr>"
    by code_simp
qed

text \<open>
  C8. A pattern whose \<open>match\<close> is not a valid regular expression is caught: its
  iteration prints the warning and changes nothing else, and the pass goes on with the
  remaining patterns from the text before the malformed one. The pass ends with the text
  and the counts of the pass without that pattern.
\<close>

theorem malformed_pattern_is_skipped:
  "re (match p) = None \<longrightarrow>
     patternEntry re warn p st = st\<lparr>warnings := warnings st @ [RegexError (match p)]\<rparr>
     \<and> patternPass re warn (ps1 @ p # ps2) st =
         patternPass re warn ps2 ((patternPass re warn ps1 st)\<lparr>
           warnings := warnings (patternPass re warn ps1 st) @ [RegexError (match p)]\<rparr>)
     \<and> result (patternPass re warn (ps1 @ p # ps2) st) = result (patternPass re warn (ps1 @ ps2) st)
     \<and> replacements (patternPass re warn (ps1 @ p # ps2) st) =
         replacements (patternPass re warn (ps1 @ ps2) st)
     \<and> rollbacks (patternPass re warn (ps1 @ p # ps2) st) =
         rollbacks (patternPass re warn (ps1 @ ps2) st)"
proof
  assume h: "re (match p) = None"
  have a: "ahead 0 (patternPass re warn (ps1 @ ps2) st) (patternPass re warn (ps1 @ p # ps2) st)"
    using h by (rule patternPass_malformed(2))
  have b: "patternEntry re warn p st = st\<lparr>warnings := warnings st @ [RegexError (match p)]\<rparr>"
    using h by (rule patternEntry_malformed)
  have c: "patternPass re warn (ps1 @ p # ps2) st =
         patternPass re warn ps2 ((patternPass re warn ps1 st)\<lparr>
           warnings := warnings (patternPass re warn ps1 st) @ [RegexError (match p)]\<rparr>)"
    using h by (rule patternPass_malformed(1))
  from a have d: "result (patternPass re warn (ps1 @ p # ps2) st) = result (patternPass re warn (ps1 @ ps2) st)"
    and e: "replacements (patternPass re warn (ps1 @ p # ps2) st) =
         replacements (patternPass re warn (ps1 @ ps2) st)"
    and f: "rollbacks (patternPass re warn (ps1 @ p # ps2) st) =
         rollbacks (patternPass re warn (ps1 @ ps2) st)"
    by (simp_all add: ahead_def)
  from b c d e f show "patternEntry re warn p st = st\<lparr>warnings := warnings st @ [RegexError (match p)]\<rparr>
     \<and> patternPass re warn (ps1 @ p # ps2) st =
         patternPass re warn ps2 ((patternPass re warn ps1 st)\<lparr>
           warnings := warnings (patternPass re warn ps1 st) @ [RegexError (match p)]\<rparr>)
     \<and> result (patternPass re warn (ps1 @ p # ps2) st) = result (patternPass re warn (ps1 @ ps2) st)
     \<and> replacements (patternPass re warn (ps1 @ p # ps2) st) =
         replacements (patternPass re warn (ps1 @ ps2) st)
     \<and> rollbacks (patternPass re warn (ps1 @ p # ps2) st) =
         rollbacks (patternPass re warn (ps1 @ ps2) st)"
    by blast
qed

theorem malformed_pattern_is_skipped_witness:
  "literalRegExp (match patBad) = None
   \<and> patternPass literalRegExp RollbackPattern [patOpen, patBad, patT] (start rollbackSource) =
       \<lparr>result = asc ''export Home;s='' @ [dquote] @ zhOpen @ [dquote], replacements = 2,
        rollbacks = 0, warnings = [RegexError (asc ''('')]\<rparr>
   \<and> result (patternPass literalRegExp RollbackPattern ([patOpen] @ patBad # [patT]) (start rollbackSource)) =
       result (patternPass literalRegExp RollbackPattern ([patOpen] @ [patT]) (start rollbackSource))
   \<and> replacements (patternPass literalRegExp RollbackPattern ([patOpen] @ patBad # [patT]) (start rollbackSource)) =
       replacements (patternPass literalRegExp RollbackPattern ([patOpen] @ [patT]) (start rollbackSource))"
proof -
  have h: "literalRegExp (match patBad) = None"
    by code_simp
  have b: "patternPass literalRegExp RollbackPattern [patOpen, patBad, patT] (start rollbackSource) =
       \<lparr>result = asc ''export Home;s='' @ [dquote] @ zhOpen @ [dquote], replacements = 2,
        rollbacks = 0, warnings = [RegexError (asc ''('')]\<rparr>"
    by code_simp
  note inst = malformed_pattern_is_skipped
    [where re = literalRegExp and p = patBad and warn = RollbackPattern and st = "start rollbackSource"
       and ?ps1.0 = "[patOpen]" and ?ps2.0 = "[patT]"]
  from inst h b show ?thesis by blast
qed

section \<open>The escaped pattern\<close>

text \<open>
  The pattern that the exact pass builds, a quote, the escaped key and the quote again,
  stands for the quoted key itself: the exact pass replaces a literal.
\<close>

lemma literalOf_ordinary:
  "c \<notin> set syntaxChars \<Longrightarrow> rest \<noteq> [] \<Longrightarrow>
   literalOf (c # rest) = map_option (\<lambda>l. c # l) (literalOf rest)"
  by (cases rest) (auto simp: syntaxChars_def)

lemma literalOf_escaped:
  "c \<in> set syntaxChars \<Longrightarrow> literalOf (92 # c # rest) = map_option (\<lambda>l. c # l) (literalOf rest)"
  by simp

lemma literalOf_escapeRegExp_quote:
  "q \<notin> set syntaxChars \<Longrightarrow> literalOf (escapeRegExp s @ [q]) = Some (s @ [q])"
proof (induction s)
  case Nil
  then show ?case by simp
next
  case (Cons c s)
  show ?case
  proof (cases "c \<in> set syntaxChars")
    case True
    with Cons show ?thesis by (simp only: escapeRegExp.simps if_True append_Cons literalOf_escaped) simp
  next
    case False
    have "escapeRegExp s @ [q] \<noteq> []" by simp
    from literalOf_ordinary[OF False this] Cons False show ?thesis by simp
  qed
qed

lemma literalOf_quoted:
  assumes "q \<in> set quoteChars"
  shows "literalOf (q # escapeRegExp en @ [q]) = Some (q # en @ [q])"
proof -
  from assms have q: "q \<notin> set syntaxChars"
    by (auto simp: quoteChars_def dquote_def squote_def backtick_def syntaxChars_def)
  have "escapeRegExp en @ [q] \<noteq> []" by simp
  from literalOf_ordinary[OF q this] literalOf_escapeRegExp_quote[OF q] show ?thesis by simp
qed

lemma literalRegExp_quoted:
  "q \<in> set quoteChars \<Longrightarrow>
   literalRegExp (q # escapeRegExp en @ [q]) =
     Some (\<lambda>template text. replaceLiteral (q # en @ [q]) template text)"
  by (simp add: literalRegExp_def literalOf_quoted)

section \<open>The exact pass\<close>

lemma occurs_Cons: "occurs pat (c # cs) = (startsWith (c # cs) pat \<or> occurs pat cs)"
  by (simp add: occurs_def)

lemma replaceLiteral_no_occurrence:
  "pat \<noteq> [] \<Longrightarrow> \<not> occurs pat t \<Longrightarrow> replaceLiteral pat rep t = t"
  by (induction t) (simp_all add: occurs_Cons)

lemma forEachQuote_no_occurrence:
  "list_all (\<lambda>q. \<not> occurs (q # en @ [q]) t) qs \<Longrightarrow> forEachQuote en zh qs (t, b) = (t, b)"
  by (induction qs) (simp_all add: replaceLiteral_no_occurrence)

lemma exactEntry_no_occurrence:
  assumes "list_all (\<lambda>q. \<not> occurs (q # en @ [q]) (result st)) quoteChars"
  shows "exactEntry (en, zh) st = st"
proof -
  have "forEachQuote en zh quoteChars (result st, False) = (result st, False)"
    using assms by (rule forEachQuote_no_occurrence)
  from exactEntry_unfold[OF this] show ?thesis by simp
qed

lemma startsWith_self_append: "startsWith (p @ b) p"
  by (simp add: startsWith_def)

lemma replaceLiteral_first:
  "q \<notin> set a \<Longrightarrow>
   replaceLiteral (q # en @ [q]) rep (a @ q # en @ [q] @ b) =
     a @ rep @ replaceLiteral (q # en @ [q]) rep b"
proof (induction a)
  case Nil
  have "startsWith (q # en @ [q] @ b) (q # en @ [q])"
    using startsWith_self_append[of "q # en @ [q]" b] by simp
  then show ?case by simp
next
  case (Cons c a)
  then have "c \<noteq> q" by auto
  then have "\<not> startsWith (c # a @ q # en @ [q] @ b) (q # en @ [q])"
    by (simp add: startsWith_def)
  with Cons show ?case by simp
qed

lemma exactText_three:
  "exactText en zh t =
     replaceLiteral (backtick # en @ [backtick]) (backtick # zh @ [backtick])
       (replaceLiteral (squote # en @ [squote]) (squote # zh @ [squote])
         (replaceLiteral (dquote # en @ [dquote]) (dquote # zh @ [dquote]) t))"
  by (simp add: exactText_def quoteChars_def Let_def forEachQuote_fst[where b = True])

lemma forEachQuote_three:
  "forEachQuote en zh quoteChars (t, False) =
     (let t1 = replaceLiteral (dquote # en @ [dquote]) (dquote # zh @ [dquote]) t;
          t2 = replaceLiteral (squote # en @ [squote]) (squote # zh @ [squote]) t1;
          t3 = replaceLiteral (backtick # en @ [backtick]) (backtick # zh @ [backtick]) t2
      in (t3, t1 \<noteq> t \<or> t2 \<noteq> t1 \<or> t3 \<noteq> t2))"
  by (simp add: quoteChars_def Let_def)

lemma exactEntry_three:
  assumes "\<not> startsWith en (asc ''_'')"
  shows "exactEntry (en, zh) st =
     (let t1 = replaceLiteral (dquote # en @ [dquote]) (dquote # zh @ [dquote]) (result st);
          t2 = replaceLiteral (squote # en @ [squote]) (squote # zh @ [squote]) t1;
          t3 = replaceLiteral (backtick # en @ [backtick]) (backtick # zh @ [backtick]) t2;
          replaced = (t1 \<noteq> result st \<or> t2 \<noteq> t1 \<or> t3 \<noteq> t2)
      in if replaced \<and> hasChineseIdentifier t3 \<and> \<not> hasChineseIdentifier (result st)
         then st\<lparr>rollbacks := rollbacks st + 1, warnings := warnings st @ [RollbackExact en zh]\<rparr>
         else if replaced then st\<lparr>result := t3, replacements := replacements st + 1\<rparr>
         else st)"
proof -
  let ?t1 = "replaceLiteral (dquote # en @ [dquote]) (dquote # zh @ [dquote]) (result st)"
  let ?t2 = "replaceLiteral (squote # en @ [squote]) (squote # zh @ [squote]) ?t1"
  let ?t3 = "replaceLiteral (backtick # en @ [backtick]) (backtick # zh @ [backtick]) ?t2"
  have fq: "forEachQuote en zh quoteChars (result st, False) =
      (?t3, ?t1 \<noteq> result st \<or> ?t2 \<noteq> ?t1 \<or> ?t3 \<noteq> ?t2)"
    by (simp add: forEachQuote_three Let_def)
  have same: "?t3 = result st" if "\<not> (?t1 \<noteq> result st \<or> ?t2 \<noteq> ?t1 \<or> ?t3 \<noteq> ?t2)"
  proof -
    from that have a: "?t1 = result st" and b: "?t2 = ?t1" and c: "?t3 = ?t2" by blast+
    show ?thesis by (rule trans[OF c trans[OF b a]])
  qed
  show ?thesis
    unfolding exactEntry_unfold[OF fq] Let_def using assms same by auto
qed

lemma replaceLiteral_leftmost:
  "list_all (\<lambda>i. \<not> startsWith (drop i (a @ pat @ b)) pat) [0..<length a] \<Longrightarrow> pat \<noteq> [] \<Longrightarrow>
   replaceLiteral pat rep (a @ pat @ b) = a @ rep @ replaceLiteral pat rep b"
proof (induction a)
  case Nil
  have "startsWith (pat @ b) pat" by (rule startsWith_self_append)
  moreover obtain c cs where "pat @ b = c # cs" using Nil.prems(2) by (cases "pat @ b") auto
  moreover have "drop (length pat) (pat @ b) = b" by simp
  ultimately show ?case using Nil.prems(2)
    by (cases pat) (auto simp: startsWith_def)
next
  case (Cons c a)
  have "0 \<in> set [0..<length (c # a)]" by simp
  with Cons.prems(1) have "\<not> startsWith (drop 0 ((c # a) @ pat @ b)) pat"
    unfolding list_all_iff by blast
  then have h0: "\<not> startsWith (c # a @ pat @ b) pat" by simp
  have "list_all (\<lambda>i. \<not> startsWith (drop i (a @ pat @ b)) pat) [0..<length a]"
  proof -
    have "\<not> startsWith (drop i (a @ pat @ b)) pat" if "i < length a" for i
    proof -
      from that have "Suc i \<in> set [0..<length (c # a)]" by auto
      with Cons.prems(1) have "\<not> startsWith (drop (Suc i) ((c # a) @ pat @ b)) pat"
        unfolding list_all_iff by blast
      then show ?thesis by simp
    qed
    then show ?thesis by (simp add: list_all_iff)
  qed
  from Cons.IH[OF this Cons.prems(2)] h0 Cons.prems(2) show ?case by simp
qed

text \<open>
  C3. The exact pass skips the keys that start with an underscore. For every other key one
  iteration is three global replacements on the running text, one for each quote
  character in the order double quote, single quote, backtick, each of the key between two
  quotes of that kind by the translation between two quotes of the same kind; the
  iteration counts one replacement when one of the three changed the text, or is rolled
  back. A text in which the key stands nowhere between two equal quotes is left as it is,
  with the counts. The leftmost quoted occurrence is replaced by the translation in the
  same quotes and the search goes on behind it. The example of the specification gives one
  replacement and leaves the function name; in the second example the key is replaced in
  each of the three kinds of quotes and left alone between different quotes and without
  quotes.
\<close>

theorem exact_pass_quoted_only:
  "(startsWith en (asc ''_'') \<longrightarrow> exactEntry (en, zh) st = st)
   \<and> (\<not> startsWith en (asc ''_'') \<longrightarrow>
        exactEntry (en, zh) st =
          (let t1 = replaceLiteral (dquote # en @ [dquote]) (dquote # zh @ [dquote]) (result st);
               t2 = replaceLiteral (squote # en @ [squote]) (squote # zh @ [squote]) t1;
               t3 = replaceLiteral (backtick # en @ [backtick]) (backtick # zh @ [backtick]) t2;
               replaced = (t1 \<noteq> result st \<or> t2 \<noteq> t1 \<or> t3 \<noteq> t2)
           in if replaced \<and> hasChineseIdentifier t3 \<and> \<not> hasChineseIdentifier (result st)
              then st\<lparr>rollbacks := rollbacks st + 1, warnings := warnings st @ [RollbackExact en zh]\<rparr>
              else if replaced then st\<lparr>result := t3, replacements := replacements st + 1\<rparr>
              else st))
   \<and> exactText en zh t =
       replaceLiteral (backtick # en @ [backtick]) (backtick # zh @ [backtick])
         (replaceLiteral (squote # en @ [squote]) (squote # zh @ [squote])
           (replaceLiteral (dquote # en @ [dquote]) (dquote # zh @ [dquote]) t))
   \<and> (list_all (\<lambda>q. \<not> occurs (q # en @ [q]) (result st)) quoteChars \<longrightarrow> exactEntry (en, zh) st = st)
   \<and> (list_all (\<lambda>i. \<not> startsWith (drop i (a @ (q # en @ [q]) @ b)) (q # en @ [q])) [0..<length a] \<longrightarrow>
        replaceLiteral (q # en @ [q]) (q # zh @ [q]) (a @ (q # en @ [q]) @ b) =
          a @ (q # zh @ [q]) @ replaceLiteral (q # en @ [q]) (q # zh @ [q]) b)
   \<and> (q \<notin> set a \<longrightarrow>
        replaceLiteral (q # en @ [q]) (q # zh @ [q]) (a @ q # en @ [q] @ b) =
          a @ (q # zh @ [q]) @ replaceLiteral (q # en @ [q]) (q # zh @ [q]) b)
   \<and> replaceStrings literalRegExp (pluginWith openChangesMap) openChangesSource (asc ''a.js'') =
       (asc ''const a = '' @ [dquote] @ zhOpenChanges @ [dquote] @ asc ''; function Open_Changes(){}'',
        (pluginWith openChangesMap)\<lparr>stats := \<lparr>filesProcessed = 1, stringsReplaced = 1\<rparr>\<rparr>,
        [])
   \<and> runRules literalRegExp openChangesMap openChangesSource =
       \<lparr>result = asc ''const a = '' @ [dquote] @ zhOpenChanges @ [dquote] @ asc ''; function Open_Changes(){}'',
        replacements = 1, rollbacks = 0, warnings = []\<rparr>
   \<and> replaceStrings literalRegExp (pluginWith openMap) quotesSource (asc ''a.js'') =
       (quotesResult, (pluginWith openMap)\<lparr>stats := \<lparr>filesProcessed = 1, stringsReplaced = 1\<rparr>\<rparr>, [])
   \<and> exactEntry (asc ''Open'', zhOpen) (start quotesSource) =
       \<lparr>result = quotesResult, replacements = 1, rollbacks = 0, warnings = []\<rparr>"
proof (intro conjI impI)
  assume "startsWith en (asc ''_'')"
  then show "exactEntry (en, zh) st = st" by (rule exactEntry_skip)
next
  assume "\<not> startsWith en (asc ''_'')"
  then show "exactEntry (en, zh) st =
          (let t1 = replaceLiteral (dquote # en @ [dquote]) (dquote # zh @ [dquote]) (result st);
               t2 = replaceLiteral (squote # en @ [squote]) (squote # zh @ [squote]) t1;
               t3 = replaceLiteral (backtick # en @ [backtick]) (backtick # zh @ [backtick]) t2;
               replaced = (t1 \<noteq> result st \<or> t2 \<noteq> t1 \<or> t3 \<noteq> t2)
           in if replaced \<and> hasChineseIdentifier t3 \<and> \<not> hasChineseIdentifier (result st)
              then st\<lparr>rollbacks := rollbacks st + 1, warnings := warnings st @ [RollbackExact en zh]\<rparr>
              else if replaced then st\<lparr>result := t3, replacements := replacements st + 1\<rparr>
              else st)"
    by (rule exactEntry_three)
next
  show "exactText en zh t =
       replaceLiteral (backtick # en @ [backtick]) (backtick # zh @ [backtick])
         (replaceLiteral (squote # en @ [squote]) (squote # zh @ [squote])
           (replaceLiteral (dquote # en @ [dquote]) (dquote # zh @ [dquote]) t))"
    by (rule exactText_three)
next
  assume "list_all (\<lambda>q. \<not> occurs (q # en @ [q]) (result st)) quoteChars"
  then show "exactEntry (en, zh) st = st" by (rule exactEntry_no_occurrence)
next
  assume "list_all (\<lambda>i. \<not> startsWith (drop i (a @ (q # en @ [q]) @ b)) (q # en @ [q])) [0..<length a]"
  then show "replaceLiteral (q # en @ [q]) (q # zh @ [q]) (a @ (q # en @ [q]) @ b) =
          a @ (q # zh @ [q]) @ replaceLiteral (q # en @ [q]) (q # zh @ [q]) b"
    by (rule replaceLiteral_leftmost) simp
next
  assume "q \<notin> set a"
  then show "replaceLiteral (q # en @ [q]) (q # zh @ [q]) (a @ q # en @ [q] @ b) =
          a @ (q # zh @ [q]) @ replaceLiteral (q # en @ [q]) (q # zh @ [q]) b"
    by (rule replaceLiteral_first)
next
  show "replaceStrings literalRegExp (pluginWith openChangesMap) openChangesSource (asc ''a.js'') =
       (asc ''const a = '' @ [dquote] @ zhOpenChanges @ [dquote] @ asc ''; function Open_Changes(){}'',
        (pluginWith openChangesMap)\<lparr>stats := \<lparr>filesProcessed = 1, stringsReplaced = 1\<rparr>\<rparr>,
        [])"
    by code_simp
next
  show "runRules literalRegExp openChangesMap openChangesSource =
       \<lparr>result = asc ''const a = '' @ [dquote] @ zhOpenChanges @ [dquote] @ asc ''; function Open_Changes(){}'',
        replacements = 1, rollbacks = 0, warnings = []\<rparr>"
    by code_simp
next
  show "replaceStrings literalRegExp (pluginWith openMap) quotesSource (asc ''a.js'') =
       (quotesResult, (pluginWith openMap)\<lparr>stats := \<lparr>filesProcessed = 1, stringsReplaced = 1\<rparr>\<rparr>, [])"
    by code_simp
next
  show "exactEntry (asc ''Open'', zhOpen) (start quotesSource) =
       \<lparr>result = quotesResult, replacements = 1, rollbacks = 0, warnings = []\<rparr>"
    by code_simp
qed

theorem exact_pass_quoted_only_witness:
  "startsWith (asc ''_comment'') (asc ''_'')
   \<and> exactEntry (asc ''_comment'', asc ''x'') (start ([dquote] @ asc ''_comment'' @ [dquote])) =
       start ([dquote] @ asc ''_comment'' @ [dquote])
   \<and> \<not> startsWith (asc ''Open'') (asc ''_'')
   \<and> exactEntry (asc ''Open'', zhOpen) (start quotesSource) =
       (let t1 = replaceLiteral (dquote # asc ''Open'' @ [dquote]) (dquote # zhOpen @ [dquote])
                   (result (start quotesSource));
            t2 = replaceLiteral (squote # asc ''Open'' @ [squote]) (squote # zhOpen @ [squote]) t1;
            t3 = replaceLiteral (backtick # asc ''Open'' @ [backtick]) (backtick # zhOpen @ [backtick]) t2;
            replaced = (t1 \<noteq> result (start quotesSource) \<or> t2 \<noteq> t1 \<or> t3 \<noteq> t2)
        in if replaced \<and> hasChineseIdentifier t3 \<and> \<not> hasChineseIdentifier (result (start quotesSource))
           then (start quotesSource)\<lparr>rollbacks := rollbacks (start quotesSource) + 1,
                  warnings := warnings (start quotesSource) @ [RollbackExact (asc ''Open'') zhOpen]\<rparr>
           else if replaced
             then (start quotesSource)\<lparr>result := t3, replacements := replacements (start quotesSource) + 1\<rparr>
           else start quotesSource)
   \<and> exactEntry (asc ''Open'', zhOpen) (start quotesSource) =
       \<lparr>result = quotesResult, replacements = 1, rollbacks = 0, warnings = []\<rparr>
   \<and> list_all (\<lambda>q. \<not> occurs (q # asc ''Open'' @ [q]) (result (start openChangesSource))) quoteChars
   \<and> exactEntry (asc ''Open'', zhOpen) (start openChangesSource) = start openChangesSource
   \<and> list_all (\<lambda>i. \<not> startsWith (drop i ((asc ''x='' @ [squote]) @ (squote # asc ''Open'' @ [squote]) @ asc '';''))
          (squote # asc ''Open'' @ [squote])) [0..<length (asc ''x='' @ [squote])]
   \<and> replaceLiteral (squote # asc ''Open'' @ [squote]) (squote # zhOpen @ [squote])
        ((asc ''x='' @ [squote]) @ (squote # asc ''Open'' @ [squote]) @ asc '';'') =
       (asc ''x='' @ [squote]) @ (squote # zhOpen @ [squote]) @
         replaceLiteral (squote # asc ''Open'' @ [squote]) (squote # zhOpen @ [squote]) (asc '';'')
   \<and> dquote \<notin> set (asc ''a = '')
   \<and> replaceLiteral (dquote # asc ''Open'' @ [dquote]) (dquote # zhOpen @ [dquote])
        (asc ''a = '' @ dquote # asc ''Open'' @ [dquote] @ asc ''; Open'') =
       asc ''a = '' @ (dquote # zhOpen @ [dquote]) @
         replaceLiteral (dquote # asc ''Open'' @ [dquote]) (dquote # zhOpen @ [dquote]) (asc ''; Open'')"
proof -
  have h1: "startsWith (asc ''_comment'') (asc ''_'')"
    by code_simp
  have h2: "\<not> startsWith (asc ''Open'') (asc ''_'')"
    by code_simp
  have h3: "list_all (\<lambda>q. \<not> occurs (q # asc ''Open'' @ [q]) (result (start openChangesSource))) quoteChars"
    by code_simp
  have h4: "list_all (\<lambda>i. \<not> startsWith (drop i ((asc ''x='' @ [squote]) @ (squote # asc ''Open'' @ [squote]) @ asc '';''))
          (squote # asc ''Open'' @ [squote])) [0..<length (asc ''x='' @ [squote])]"
    by code_simp
  have h5: "dquote \<notin> set (asc ''a = '')"
    by code_simp
  have v: "exactEntry (asc ''Open'', zhOpen) (start quotesSource) =
       \<lparr>result = quotesResult, replacements = 1, rollbacks = 0, warnings = []\<rparr>"
    by code_simp
  note i1 = exact_pass_quoted_only
    [where en = "asc ''_comment''" and zh = "asc ''x''"
       and st = "start ([dquote] @ asc ''_comment'' @ [dquote])"]
  note i2 = exact_pass_quoted_only
    [where en = "asc ''Open''" and zh = zhOpen and st = "start quotesSource"
       and q = squote and a = "asc ''x='' @ [squote]" and b = "asc '';''"]
  note i3 = exact_pass_quoted_only
    [where en = "asc ''Open''" and zh = zhOpen and st = "start openChangesSource"
       and q = dquote and a = "asc ''a = ''" and b = "asc ''; Open''"]
  from i1 h1 have c1: "exactEntry (asc ''_comment'', asc ''x'') (start ([dquote] @ asc ''_comment'' @ [dquote])) =
       start ([dquote] @ asc ''_comment'' @ [dquote])" by blast
  from i2 h2 have c2: "exactEntry (asc ''Open'', zhOpen) (start quotesSource) =
       (let t1 = replaceLiteral (dquote # asc ''Open'' @ [dquote]) (dquote # zhOpen @ [dquote])
                   (result (start quotesSource));
            t2 = replaceLiteral (squote # asc ''Open'' @ [squote]) (squote # zhOpen @ [squote]) t1;
            t3 = replaceLiteral (backtick # asc ''Open'' @ [backtick]) (backtick # zhOpen @ [backtick]) t2;
            replaced = (t1 \<noteq> result (start quotesSource) \<or> t2 \<noteq> t1 \<or> t3 \<noteq> t2)
        in if replaced \<and> hasChineseIdentifier t3 \<and> \<not> hasChineseIdentifier (result (start quotesSource))
           then (start quotesSource)\<lparr>rollbacks := rollbacks (start quotesSource) + 1,
                  warnings := warnings (start quotesSource) @ [RollbackExact (asc ''Open'') zhOpen]\<rparr>
           else if replaced
             then (start quotesSource)\<lparr>result := t3, replacements := replacements (start quotesSource) + 1\<rparr>
           else start quotesSource)" by blast
  from i3 h3 have c3: "exactEntry (asc ''Open'', zhOpen) (start openChangesSource) = start openChangesSource"
    by blast
  from i2 h4 have c4: "replaceLiteral (squote # asc ''Open'' @ [squote]) (squote # zhOpen @ [squote])
        ((asc ''x='' @ [squote]) @ (squote # asc ''Open'' @ [squote]) @ asc '';'') =
       (asc ''x='' @ [squote]) @ (squote # zhOpen @ [squote]) @
         replaceLiteral (squote # asc ''Open'' @ [squote]) (squote # zhOpen @ [squote]) (asc '';'')"
    by blast
  from i3 h5 have c5: "replaceLiteral (dquote # asc ''Open'' @ [dquote]) (dquote # zhOpen @ [dquote])
        (asc ''a = '' @ dquote # asc ''Open'' @ [dquote] @ asc ''; Open'') =
       asc ''a = '' @ (dquote # zhOpen @ [dquote]) @
         replaceLiteral (dquote # asc ''Open'' @ [dquote]) (dquote # zhOpen @ [dquote]) (asc ''; Open'')"
    by blast
  from h1 h2 h3 h4 h5 v c1 c2 c3 c4 c5 show ?thesis by blast
qed

section \<open>A text that already holds a signature\<close>

lemma exactEntry_corrupt:
  assumes "hasChineseIdentifier (result st)" and "\<not> startsWith en (asc ''_'')"
  shows "exactEntry (en, zh) st =
           st\<lparr>result := exactText en zh (result st),
              replacements := replacements st + (if exactReplaced en zh (result st) then 1 else 0)\<rparr>"
proof -
  obtain res replaced where fq: "forEachQuote en zh quoteChars (result st, False) = (res, replaced)"
    by (cases "forEachQuote en zh quoteChars (result st, False)")
  then have "res = exactText en zh (result st)" and "replaced = exactReplaced en zh (result st)"
    by (simp_all add: exactText_def exactReplaced_def)
  with assms exactEntry_unfold[OF fq] show ?thesis by simp
qed

lemma patternEntry_corrupt:
  assumes "hasChineseIdentifier (result st)" and "re (match p) = Some regex"
  shows "patternEntry re warn p st =
           st\<lparr>result := regex (replace p) (result st),
              replacements := replacements st + (if regex (replace p) (result st) \<noteq> result st then 1 else 0)\<rparr>"
  using assms by (simp add: patternEntry_def Let_def)

lemma exactEntry_corrupt_rollbacks:
  "hasChineseIdentifier (result st) \<Longrightarrow> rollbacks (exactEntry e st) = rollbacks st"
proof -
  assume h: "hasChineseIdentifier (result st)"
  obtain en zh where e: "e = (en, zh)" by (cases e)
  show ?thesis
  proof (cases "startsWith en (asc ''_'')")
    case True
    then show ?thesis by (simp add: e exactEntry_skip)
  next
    case False
    from exactEntry_corrupt[OF h False] show ?thesis by (simp add: e)
  qed
qed

lemma patternEntry_corrupt_rollbacks:
  "hasChineseIdentifier (result st) \<Longrightarrow> rollbacks (patternEntry re warn p st) = rollbacks st"
  by (cases "re (match p)") (simp_all add: patternEntry_malformed patternEntry_corrupt)

lemma exactPass_corrupt_rollbacks:
  "list_all hasChineseIdentifier (exactTexts es st) \<Longrightarrow> rollbacks (exactPass es st) = rollbacks st"
  by (induction es arbitrary: st) (simp_all add: exactEntry_corrupt_rollbacks)

lemma patternPass_corrupt_rollbacks:
  "list_all hasChineseIdentifier (patternTexts re warn ps st) \<Longrightarrow>
   rollbacks (patternPass re warn ps st) = rollbacks st"
  by (induction ps arbitrary: st) (simp_all add: patternEntry_corrupt_rollbacks)

lemma runRules_corrupt_rollbacks:
  assumes "list_all hasChineseIdentifier (textsBefore re m source)"
  shows "rollbacks (runRules re m source) = 0"
proof -
  have a: "rollbacks (pass1 m (start source)) = 0"
    using assms
    by (auto simp: textsBefore_def pass1_def start_def exactPass_corrupt_rollbacks split: option.splits)
  have b: "rollbacks (pass2 re m (pass1 m (start source))) = rollbacks (pass1 m (start source))"
    using assms
    by (auto simp: textsBefore_def pass2_def patternPass_corrupt_rollbacks split: option.splits)
  have c: "rollbacks (pass3 re m (pass2 re m (pass1 m (start source)))) =
           rollbacks (pass2 re m (pass1 m (start source)))"
    using assms
    by (auto simp: textsBefore_def pass3_def patternPass_corrupt_rollbacks split: option.splits)
  from a b c show ?thesis by (simp add: runRules_def)
qed

text \<open>
  C10, as the code has it. The check is made rule by rule: a rule applied to a text that
  holds a corruption signature is never rolled back; its substitution is kept, and counted
  when it replaced something, whatever it introduces. A run in which the text before every
  rule holds a signature has no rollback. The check is active again after a substitution
  that removes the last signature.
\<close>

theorem no_rollback_while_corrupt:
  "(hasChineseIdentifier (result st) \<and> \<not> startsWith en (asc ''_'') \<longrightarrow>
      exactEntry (en, zh) st =
        st\<lparr>result := exactText en zh (result st),
           replacements := replacements st + (if exactReplaced en zh (result st) then 1 else 0)\<rparr>)
   \<and> (hasChineseIdentifier (result st') \<and> re (match p) = Some regex \<longrightarrow>
      patternEntry re warn p st' =
        st'\<lparr>result := regex (replace p) (result st'),
            replacements := replacements st' +
              (if regex (replace p) (result st') \<noteq> result st' then 1 else 0)\<rparr>)
   \<and> (list_all hasChineseIdentifier (textsBefore re m source) \<longrightarrow>
      rollbacks (runRules re m source) = 0)"
proof (intro conjI impI)
  assume "hasChineseIdentifier (result st) \<and> \<not> startsWith en (asc ''_'')"
  then show "exactEntry (en, zh) st =
        st\<lparr>result := exactText en zh (result st),
           replacements := replacements st + (if exactReplaced en zh (result st) then 1 else 0)\<rparr>"
    using exactEntry_corrupt by blast
next
  assume "hasChineseIdentifier (result st') \<and> re (match p) = Some regex"
  then show "patternEntry re warn p st' =
        st'\<lparr>result := regex (replace p) (result st'),
            replacements := replacements st' +
              (if regex (replace p) (result st') \<noteq> result st' then 1 else 0)\<rparr>"
    using patternEntry_corrupt by blast
next
  assume "list_all hasChineseIdentifier (textsBefore re m source)"
  then show "rollbacks (runRules re m source) = 0" by (rule runRules_corrupt_rollbacks)
qed

theorem no_rollback_while_corrupt_witness:
  "hasChineseIdentifier (result (start corruptSource))
   \<and> \<not> startsWith (asc ''Open'') (asc ''_'')
   \<and> exactEntry (asc ''Open'', zhTranslation @ asc ''('') (start corruptSource) =
       (start corruptSource)\<lparr>result := exactText (asc ''Open'') (zhTranslation @ asc ''('') (result (start corruptSource)),
          replacements := replacements (start corruptSource) +
            (if exactReplaced (asc ''Open'') (zhTranslation @ asc ''('') (result (start corruptSource)) then 1 else 0)\<rparr>
   \<and> literalRegExp (match patT) = Some (\<lambda>template text. replaceLiteral (asc ''t='') template text)
   \<and> patternEntry literalRegExp RollbackPattern patT (start corruptSource) =
       (start corruptSource)\<lparr>result := replaceLiteral (asc ''t='') (replace patT) (result (start corruptSource)),
          replacements := replacements (start corruptSource) +
            (if replaceLiteral (asc ''t='') (replace patT) (result (start corruptSource)) \<noteq> result (start corruptSource)
             then 1 else 0)\<rparr>
   \<and> list_all hasChineseIdentifier (textsBefore literalRegExp corruptMap corruptSource)
   \<and> rollbacks (runRules literalRegExp corruptMap corruptSource) = 0
   \<and> runRules literalRegExp corruptMap corruptSource =
       \<lparr>result = asc ''export '' @ zhTranslation @ asc '';s='' @ [dquote] @ zhTranslation @ asc ''('' @ [dquote],
        replacements = 2, rollbacks = 0, warnings = []\<rparr>"
proof -
  have h1: "hasChineseIdentifier (result (start corruptSource))"
    by code_simp
  have h2: "\<not> startsWith (asc ''Open'') (asc ''_'')"
    by code_simp
  have h3: "literalRegExp (match patT) = Some (\<lambda>template text. replaceLiteral (asc ''t='') template text)"
    by (simp add: literalRegExp_def patT_def asc_def syntaxChars_def)
  have h4: "list_all hasChineseIdentifier (textsBefore literalRegExp corruptMap corruptSource)"
    by code_simp
  have r: "runRules literalRegExp corruptMap corruptSource =
       \<lparr>result = asc ''export '' @ zhTranslation @ asc '';s='' @ [dquote] @ zhTranslation @ asc ''('' @ [dquote],
        replacements = 2, rollbacks = 0, warnings = []\<rparr>"
    by code_simp
  note inst = no_rollback_while_corrupt
    [where st = "start corruptSource" and en = "asc ''Open''" and zh = "zhTranslation @ asc ''(''"
       and st' = "start corruptSource" and re = literalRegExp and p = patT
       and regex = "\<lambda>template text. replaceLiteral (asc ''t='') template text"
       and warn = RollbackPattern and m = corruptMap and source = corruptSource]
  from inst h1 h2 h3 h4 r show ?thesis by blast
qed

text \<open>
  The guard fires on a text that held a signature at the start: the first entry removes
  the signature and is counted, the second entry is rolled back.
\<close>

theorem rollback_after_repair:
  "hasChineseIdentifier repairSource
   \<and> runRules literalRegExp repairMap repairSource =
       \<lparr>result = [dquote] @ asc ''ok'' @ [dquote] @ asc '' '' @ [dquote] @ asc ''Open'' @ [dquote],
        replacements = 1, rollbacks = 1,
        warnings = [RollbackExact (asc ''Open'') (zhTranslation @ asc ''('')]\<rparr>"
  by code_simp

section \<open>Running the engine twice\<close>

lemma replaceStrings_l10nMap:
  "l10nMap (fst (snd (replaceStrings re this source filename))) = l10nMap this"
  by (simp add: replaceStrings_def Let_def split: option.splits)

text \<open>
  Two runs differ from one: the first run replaces the first quoted \<open>a\<close>; the second
  quoted \<open>a\<close> shares a quote with it and is found by the second run only.
\<close>

theorem second_run_changes_text:
  "fst (replaceStrings literalRegExp (pluginWith sharedQuoteMap) sharedQuoteSource (asc ''a.js'')) =
     [dquote] @ asc ''x'' @ [dquote] @ asc ''a'' @ [dquote]
   \<and> fst (replaceStrings literalRegExp
        (fst (snd (replaceStrings literalRegExp (pluginWith sharedQuoteMap) sharedQuoteSource (asc ''a.js''))))
        (fst (replaceStrings literalRegExp (pluginWith sharedQuoteMap) sharedQuoteSource (asc ''a.js'')))
        (asc ''a.js'')) =
     [dquote] @ asc ''x'' @ [dquote] @ asc ''x'' @ [dquote]
   \<and> fst (replaceStrings literalRegExp
        (fst (snd (replaceStrings literalRegExp (pluginWith sharedQuoteMap) sharedQuoteSource (asc ''a.js''))))
        (fst (replaceStrings literalRegExp (pluginWith sharedQuoteMap) sharedQuoteSource (asc ''a.js'')))
        (asc ''a.js'')) \<noteq>
     fst (replaceStrings literalRegExp (pluginWith sharedQuoteMap) sharedQuoteSource (asc ''a.js''))"
  by code_simp

section \<open>Rules as functions on the text\<close>

lemma exactEntry_guarded: "result (exactEntry e st) = guarded (rawExact e) (result st)"
  by (cases e) (simp add: exactEntry_result guarded_def rawExact_def)

lemma patternEntry_guarded:
  "result (patternEntry re warn p st) = guarded (rawPattern re p) (result st)"
  by (simp add: patternEntry_result guarded_def rawPattern_def split: option.splits)

lemma guardedRun_Nil: "guardedRun [] t = t"
  by (simp add: guardedRun_def)

lemma guardedRun_Cons: "guardedRun (g # gs) t = guardedRun gs (guarded g t)"
  by (simp add: guardedRun_def)

lemma guardedRun_append: "guardedRun (gs @ hs) t = guardedRun hs (guardedRun gs t)"
  by (simp add: guardedRun_def)

lemma exactPass_guardedRun:
  "result (exactPass es st) = guardedRun (map rawExact es) (result st)"
  by (induction es arbitrary: st) (simp_all add: guardedRun_Nil guardedRun_Cons exactEntry_guarded)

lemma patternPass_guardedRun:
  "result (patternPass re warn ps st) = guardedRun (map (rawPattern re) ps) (result st)"
  by (induction ps arbitrary: st) (simp_all add: guardedRun_Nil guardedRun_Cons patternEntry_guarded)

lemma runRules_guardedRun: "result (runRules re m source) = guardedRun (rawRules re m) source"
proof -
  have a: "result (pass1 m st) =
      guardedRun (map rawExact (case exactOf m of None \<Rightarrow> [] | Some es \<Rightarrow> es)) (result st)" for st
    by (simp add: pass1_def exactPass_guardedRun guardedRun_Nil split: option.splits)
  have b: "result (pass2 re m st) =
      guardedRun (map (rawPattern re) (case webviewPatternsOf m of None \<Rightarrow> [] | Some ps \<Rightarrow> ps)) (result st)" for st
    by (simp add: pass2_def patternPass_guardedRun guardedRun_Nil split: option.splits)
  have c: "result (pass3 re m st) =
      guardedRun (map (rawPattern re) (case statusBarPatternsOf m of None \<Rightarrow> [] | Some ps \<Rightarrow> ps)) (result st)" for st
    by (simp add: pass3_def patternPass_guardedRun guardedRun_Nil split: option.splits)
  show ?thesis
    by (simp only: runRules_def rawRules_def guardedRun_append a b c) (simp add: start_def)
qed

lemma guarded_cases: "guarded g t = t \<or> guarded g t = g t"
  by (simp add: guarded_def)

lemma guarded_clean: "\<not> hasChineseIdentifier t \<Longrightarrow> \<not> hasChineseIdentifier (guarded g t)"
  by (simp add: guarded_def)

lemma guardedRun_clean: "\<not> hasChineseIdentifier t \<Longrightarrow> \<not> hasChineseIdentifier (guardedRun gs t)"
  by (induction gs arbitrary: t) (simp_all add: guardedRun_Nil guardedRun_Cons guarded_clean)

lemma guarded_Inv:
  assumes "Inv t" and "\<And>t. Inv t \<Longrightarrow> Inv (g t)"
  shows "Inv (guarded g t)"
  using assms guarded_cases[of g t] by auto

lemma guardedRun_Inv:
  assumes "Inv t" and "\<And>g t. g \<in> set gs \<Longrightarrow> Inv t \<Longrightarrow> Inv (g t)"
  shows "Inv (guardedRun gs t)"
  using assms
proof (induction gs arbitrary: t)
  case Nil
  then show ?case by (simp add: guardedRun_Nil)
next
  case (Cons h gs)
  have "Inv (guarded h t)"
    using Cons.prems(1) by (rule guarded_Inv) (simp add: Cons.prems(2))
  then have "Inv (guardedRun gs (guarded h t))"
    by (rule Cons.IH) (simp add: Cons.prems(2))
  then show ?case by (simp add: guardedRun_Cons)
qed

text \<open>A text that a rule leaves alone is still left alone by it after the later rules.\<close>

lemma guardedRun_keeps_fixed:
  assumes "Inv x" and "g x = x"
    and "\<And>h t. h \<in> set hs \<Longrightarrow> Inv t \<Longrightarrow> Inv (h t)"
    and "\<And>h t. h \<in> set hs \<Longrightarrow> Inv t \<Longrightarrow> g t = t \<Longrightarrow> g (h t) = h t"
  shows "g (guardedRun hs x) = guardedRun hs x"
  using assms
proof (induction hs arbitrary: x)
  case Nil
  then show ?case by (simp add: guardedRun_Nil)
next
  case (Cons h hs)
  have i: "Inv (guarded h x)"
    using Cons.prems(1) by (rule guarded_Inv) (simp add: Cons.prems(3))
  have "g (h x) = h x" using Cons.prems by simp
  with Cons.prems(2) guarded_cases[of h x] have f: "g (guarded h x) = guarded h x" by auto
  have "g (guardedRun hs (guarded h x)) = guardedRun hs (guarded h x)"
    using i f by (rule Cons.IH) (simp_all add: Cons.prems)
  then show ?case by (simp add: guardedRun_Cons)
qed

lemma guardedRun_fixed_by_all:
  "(\<And>g. g \<in> set gs \<Longrightarrow> guarded g t = t) \<Longrightarrow> guardedRun gs t = t"
  by (induction gs) (simp_all add: guardedRun_Nil guardedRun_Cons)

lemma guardedRun_idempotent:
  assumes inv: "Inv s"
    and closed: "\<And>g t. g \<in> set gs \<Longrightarrow> Inv t \<Longrightarrow> Inv (g t)"
    and idem: "\<And>g t. g \<in> set gs \<Longrightarrow> Inv t \<Longrightarrow> g (g t) = g t"
    and later: "\<And>i j t. i < j \<Longrightarrow> j < length gs \<Longrightarrow> Inv t \<Longrightarrow> (gs ! i) t = t \<Longrightarrow>
                  (gs ! i) ((gs ! j) t) = (gs ! j) t"
    and uniform: "\<And>g. g \<in> set gs \<Longrightarrow>
                  (\<forall>t. Inv t \<and> g t \<noteq> t \<longrightarrow> hasChineseIdentifier (g t))
                  \<or> (\<forall>t. Inv t \<and> \<not> hasChineseIdentifier t \<longrightarrow> \<not> hasChineseIdentifier (g t))"
  shows "guardedRun gs (guardedRun gs s) = guardedRun gs s"
proof (rule guardedRun_fixed_by_all)
  fix g assume "g \<in> set gs"
  then obtain i where i: "i < length gs" and gi: "gs ! i = g" by (auto simp: in_set_conv_nth)
  define pre where "pre = take i gs"
  define post where "post = drop (Suc i) gs"
  have gs: "gs = pre @ g # post"
    unfolding pre_def post_def gi[symmetric] by (rule id_take_nth_drop[OF i])
  have lpre: "length pre = i" using i by (simp add: pre_def)
  have g_in: "g \<in> set gs" by (simp add: gs)
  have post_in: "h \<in> set gs" if "h \<in> set post" for h using that by (simp add: gs)
  have pre_in: "h \<in> set gs" if "h \<in> set pre" for h using that by (simp add: gs)
  let ?T = "guardedRun gs s"
  let ?t = "guardedRun pre s"
  have T: "?T = guardedRun post (guarded g ?t)"
    by (simp add: gs guardedRun_append guardedRun_Cons)
  have it: "Inv ?t"
    using inv by (rule guardedRun_Inv) (simp add: closed pre_in)
  have it': "Inv (guarded g ?t)"
    using it by (rule guarded_Inv) (simp add: closed g_in)
  have iT: "Inv ?T"
    using inv by (rule guardedRun_Inv) (simp add: closed)
  have post_later: "g (h t) = h t" if "h \<in> set post" "Inv t" "g t = t" for h t
  proof -
    from that(1) obtain k where k: "k < length post" and hk: "post ! k = h"
      by (auto simp: in_set_conv_nth)
    have j: "gs ! (Suc (i + k)) = h"
      using hk lpre by (simp add: gs nth_append)
    have "i < Suc (i + k)" by simp
    moreover have "Suc (i + k) < length gs" using k lpre by (simp add: gs)
    ultimately have "(gs ! i) ((gs ! (Suc (i + k))) t) = (gs ! (Suc (i + k))) t"
      using that(2) that(3) gi by (intro later) simp_all
    then show ?thesis by (simp add: gi j)
  qed
  show "guarded g ?T = ?T"
  proof (cases "g (guarded g ?t) = guarded g ?t")
    case True
    have "g (guardedRun post (guarded g ?t)) = guardedRun post (guarded g ?t)"
      using it' True
      by (rule guardedRun_keeps_fixed) (simp_all add: closed post_in post_later)
    then show ?thesis by (simp add: T guarded_def)
  next
    case False
    have rolled: "guarded g ?t = ?t"
    proof (rule ccontr)
      assume "guarded g ?t \<noteq> ?t"
      with guarded_cases[of g ?t] have "guarded g ?t = g ?t" by simp
      with idem[OF g_in it] False show False by simp
    qed
    with False have moved: "g ?t \<noteq> ?t" by simp
    with rolled have dirty: "hasChineseIdentifier (g ?t)" and clean: "\<not> hasChineseIdentifier ?t"
      by (auto simp: guarded_def split: if_splits)
    from clean rolled have "\<not> hasChineseIdentifier (guarded g ?t)" by simp
    then have cT: "\<not> hasChineseIdentifier ?T"
      unfolding T by (rule guardedRun_clean)
    from uniform[OF g_in] dirty clean it
    have always: "\<forall>t. Inv t \<and> g t \<noteq> t \<longrightarrow> hasChineseIdentifier (g t)" by blast
    show ?thesis
    proof (cases "g ?T = ?T")
      case True
      then show ?thesis by (simp add: guarded_def)
    next
      case False
      with always iT have "hasChineseIdentifier (g ?T)" by blast
      with cT show ?thesis by (simp add: guarded_def)
    qed
  qed
qed

section \<open>Texts cut at their quotes\<close>

lemma joinQuotes_splitQuotes: "joinQuotes (splitQuotes t) = t"
  by (induction t) (auto simp: joinQuotes_def split: prod.splits)

lemma splitQuotes_wf: "quoteFree (fst (splitQuotes t)) \<and> wfTokens (snd (splitQuotes t))"
  by (induction t) (auto simp: quoteFree_def wfTokens_def split: prod.splits)

lemma splitQuotes_word: "quoteFree w \<Longrightarrow> splitQuotes (w @ t) = (w @ fst (splitQuotes t), snd (splitQuotes t))"
  by (induction w) (auto simp: quoteFree_def split: prod.splits)

lemma splitQuotes_joinTokens: "wfTokens tks \<Longrightarrow> splitQuotes (joinTokens tks) = ([], tks)"
proof (induction tks)
  case Nil
  then show ?case by simp
next
  case (Cons tk tks)
  obtain q w where tk: "tk = (q, w)" by (cases tk)
  from Cons.prems have q: "isQuote q" and w: "quoteFree w" and r: "wfTokens tks"
    by (simp_all add: tk wfTokens_def)
  from Cons.IH[OF r] splitQuotes_word[OF w, of "joinTokens tks"] q show ?case
    by (simp add: tk)
qed

lemma splitQuotes_joinQuotes:
  "quoteFree w \<Longrightarrow> wfTokens tks \<Longrightarrow> splitQuotes (joinQuotes (w, tks)) = (w, tks)"
  by (simp add: joinQuotes_def splitQuotes_word splitQuotes_joinTokens)

lemma triples_length: "length (triples tks) = length tks"
  by (induction tks) auto

lemma mapWords_Nil: "mapWords f [] = []"
  by (simp add: mapWords_def)

lemma mapWords_Cons:
  "mapWords f ((q, w) # tks) =
     (q, f q (case tks of [] \<Rightarrow> None | (q', w') # r \<Rightarrow> Some q') w) # mapWords f tks"
  by (simp add: mapWords_def)

lemma triples_mapWords: "triples (mapWords f tks) = map (\<lambda>(q, nq, w). (q, nq, f q nq w)) (triples tks)"
proof (induction tks)
  case Nil
  then show ?case by (simp add: mapWords_Nil)
next
  case (Cons tk tks)
  obtain q w where tk: "tk = (q, w)" by (cases tk)
  have "(case mapWords f tks of [] \<Rightarrow> None | (q', w') # r \<Rightarrow> Some q') =
        (case tks of [] \<Rightarrow> None | (q', w') # r \<Rightarrow> Some q')"
    by (cases tks) (auto simp: mapWords_Nil mapWords_Cons)
  with Cons show ?case by (simp add: tk mapWords_Cons)
qed

lemma replaceLiteral_skip:
  "q \<notin> set a \<Longrightarrow> replaceLiteral (q # p) rep (a @ t) = a @ replaceLiteral (q # p) rep t"
proof (induction a)
  case Nil
  then show ?case by simp
next
  case (Cons c a)
  then have "c \<noteq> q" by auto
  then have "\<not> startsWith (c # a @ t) (q # p)" by (simp add: startsWith_def)
  with Cons show ?case by simp
qed

lemma quoteFree_notin: "quoteFree w \<Longrightarrow> isQuote q \<Longrightarrow> q \<notin> set w"
  by (auto simp: quoteFree_def list_all_iff)

lemma take_quoted_eq:
  assumes "quoteFree w" and "quoteFree en" and "isQuote q" and "isQuote q2"
  shows "take (Suc (length en)) (w @ q2 # t) = en @ [q] \<longleftrightarrow> w = en \<and> q2 = q"
  using assms
proof (induction w arbitrary: en)
  case Nil
  show ?case
  proof (cases en)
    case Nil
    then show ?thesis by simp
  next
    case (Cons e en')
    from Cons Nil.prems(2,4) have "e \<noteq> q2" by (auto simp: quoteFree_def)
    with Cons show ?thesis by auto
  qed
next
  case (Cons c w)
  from Cons.prems(1) have cq: "\<not> isQuote c" and w: "quoteFree w" by (simp_all add: quoteFree_def)
  show ?case
  proof (cases en)
    case Nil
    from cq Cons.prems(3) have "c \<noteq> q" by auto
    with Nil show ?thesis by simp
  next
    case (Cons e en')
    from Cons Cons.prems(2) have "quoteFree en'" by (simp add: quoteFree_def)
    from Cons.IH[OF w this Cons.prems(3,4)] Cons show ?thesis by auto
  qed
qed

lemma startsWith_quoted:
  assumes "quoteFree w" and "quoteFree en" and "isQuote q" and "isQuote q2"
  shows "startsWith (q1 # w @ q2 # t) (q # en @ [q]) \<longleftrightarrow> q1 = q \<and> w = en \<and> q2 = q"
  using take_quoted_eq[OF assms, of t] by (auto simp: startsWith_def)

lemma startsWith_last_token:
  assumes "quoteFree w" and "isQuote q"
  shows "\<not> startsWith (q1 # w) (q # en @ [q])"
proof
  assume "startsWith (q1 # w) (q # en @ [q])"
  then have "take (Suc (length en)) w = en @ [q]" by (simp add: startsWith_def)
  then have "q \<in> set (take (Suc (length en)) w)" by simp
  then have "q \<in> set w" by (rule in_set_takeD)
  with quoteFree_notin[OF assms] show False by simp
qed

text \<open>
  On a text in which no two quoted occurrences of the key share a quote, the global
  replacement rewrites every word that is the key between two quotes \<open>q\<close>.
\<close>

lemma replaceLiteral_tokens:
  assumes "quoteFree en" and "isQuote q"
  shows "wfTokens tks \<Longrightarrow> \<not> sharedQuote en (triples tks) \<Longrightarrow>
     replaceLiteral (q # en @ [q]) (q # zh @ [q]) (joinTokens tks) =
       joinTokens (mapWords (\<lambda>a b w. if a = q \<and> b = Some q \<and> w = en then zh else w) tks)"
proof (induction "length tks" arbitrary: tks rule: less_induct)
  case less
  let ?f = "\<lambda>a b w. if a = q \<and> b = Some q \<and> w = en then zh else w"
  let ?R = "replaceLiteral (q # en @ [q]) (q # zh @ [q])"
  show ?case
  proof (cases tks)
    case Nil
    then show ?thesis by (simp add: mapWords_Nil)
  next
    case (Cons tk1 r1)
    obtain q1 w1 where tk1: "tk1 = (q1, w1)" by (cases tk1)
    from less.prems(1) have q1: "isQuote q1" and w1: "quoteFree w1" and wr1: "wfTokens r1"
      by (simp_all add: Cons tk1 wfTokens_def)
    show ?thesis
    proof (cases r1)
      case Nil
      have "\<not> startsWith (q1 # w1) (q # en @ [q])"
        using w1 assms(2) by (rule startsWith_last_token)
      moreover have "?R w1 = w1"
        using replaceLiteral_skip[OF quoteFree_notin[OF w1 assms(2)], of "en @ [q]" "q # zh @ [q]" "[]"]
        by simp
      ultimately show ?thesis by (simp add: Cons tk1 Nil mapWords_Cons mapWords_Nil)
    next
      case (Cons tk2 r2)
      obtain q2 w2 where tk2: "tk2 = (q2, w2)" by (cases tk2)
      from wr1 have q2: "isQuote q2" and w2: "quoteFree w2" and wr2: "wfTokens r2"
        by (simp_all add: Cons tk2 wfTokens_def)
      have tks: "tks = (q1, w1) # (q2, w2) # r2" by (simp add: \<open>tks = tk1 # r1\<close> tk1 Cons tk2)
      have sw: "startsWith (q1 # w1 @ q2 # w2 @ joinTokens r2) (q # en @ [q]) \<longleftrightarrow> q1 = q \<and> w1 = en \<and> q2 = q"
        using w1 assms(1) assms(2) q2 by (rule startsWith_quoted)
      from less.prems(2) have ns1: "\<not> sharedQuote en (triples r1)"
        by (cases "triples r1") (auto simp: tks Cons tk2)
      have skip2: "?R (w2 @ joinTokens r2) = w2 @ ?R (joinTokens r2)"
        using replaceLiteral_skip[OF quoteFree_notin[OF w2 assms(2)]] by simp
      have skip1: "?R (w1 @ joinTokens r1) = w1 @ ?R (joinTokens r1)"
        using replaceLiteral_skip[OF quoteFree_notin[OF w1 assms(2)]] by simp
      show ?thesis
      proof (cases "q1 = q \<and> w1 = en \<and> q2 = q")
        case True
        have first: "quotedKey en (q1, Some q2, w1)" using True by (simp add: quotedKey_def)
        have ns2: "\<not> sharedQuote en (triples r2)"
          using ns1 by (cases "triples r2") (auto simp: Cons tk2)
        have second: "\<not> quotedKey en (q2, (case r2 of [] \<Rightarrow> None | (q', w') # r \<Rightarrow> Some q'), w2)"
          using less.prems(2) first by (auto simp: tks)
        then have f2: "?f q2 (case r2 of [] \<Rightarrow> None | (q', w') # r \<Rightarrow> Some q') w2 = w2"
          using True by (auto simp: quotedKey_def)
        have ih: "?R (joinTokens r2) = joinTokens (mapWords ?f r2)"
          using wr2 ns2 by (intro less.hyps) (simp_all add: tks)
        have "drop (length (q # en @ [q]) - 1) (w1 @ q2 # w2 @ joinTokens r2) = w2 @ joinTokens r2"
          using True by simp
        moreover from True sw have "startsWith (q1 # w1 @ q2 # w2 @ joinTokens r2) (q # en @ [q])"
          by blast
        ultimately have "?R (q1 # w1 @ q2 # w2 @ joinTokens r2) = (q # zh @ [q]) @ ?R (w2 @ joinTokens r2)"
          by simp
        then have "?R (joinTokens tks) = (q # zh @ [q]) @ ?R (w2 @ joinTokens r2)"
          by (simp add: tks)
        also have "\<dots> = (q # zh @ [q]) @ w2 @ joinTokens (mapWords ?f r2)"
          by (simp only: skip2 ih)
        also have "\<dots> = joinTokens (mapWords ?f tks)"
          using True f2 by (simp add: tks mapWords_Cons)
        finally show ?thesis .
      next
        case False
        have ih: "?R (joinTokens r1) = joinTokens (mapWords ?f r1)"
          using wr1 ns1 by (intro less.hyps) (simp_all add: \<open>tks = tk1 # r1\<close>)
        from False sw have nsw: "\<not> startsWith (q1 # w1 @ q2 # w2 @ joinTokens r2) (q # en @ [q])"
          by blast
        have "?R (q1 # w1 @ q2 # w2 @ joinTokens r2) = q1 # ?R (w1 @ q2 # w2 @ joinTokens r2)"
          using nsw by simp
        then have "?R (joinTokens tks) = q1 # ?R (w1 @ joinTokens r1)"
          by (simp add: tks Cons tk2)
        also have "\<dots> = q1 # w1 @ joinTokens (mapWords ?f r1)"
          by (simp only: skip1 ih)
        also have "\<dots> = joinTokens (mapWords ?f tks)"
          using False by (auto simp: \<open>tks = tk1 # r1\<close> tk1 Cons tk2 mapWords_Cons)
        finally show ?thesis .
      qed
    qed
  qed
qed

section \<open>A signature does not span a quote\<close>

lemma isQuote_cases: "isQuote q \<longleftrightarrow> q = 34 \<or> q = 39 \<or> q = 96"
  by (auto simp: isQuote_def quoteChars_def dquote_def squote_def backtick_def)

lemma quote_not_class: "isQuote q \<Longrightarrow> \<not> isSpace q \<and> \<not> isCJK q \<and> q \<noteq> 58 \<and> q \<noteq> 40 \<and> q \<noteq> 123 \<and> q \<noteq> 46"
  by (auto simp: isQuote_cases isSpace_def isCJK_def)

lemma quotes_not_in_keywords: "list_all (\<lambda>q. list_all (\<lambda>k. q \<notin> set k) declKeywords) quoteChars"
  by code_simp

lemma quote_not_in_keyword: "isQuote q \<Longrightarrow> k \<in> set declKeywords \<Longrightarrow> q \<notin> set k"
  using quotes_not_in_keywords unfolding list_all_iff isQuote_def by blast

lemma dropWhile_before: "\<not> A q \<Longrightarrow> dropWhile A (d @ q # y) = dropWhile A d @ q # y"
  by (induction d) auto

lemma head_after_dropWhile:
  assumes "\<not> A q" and "\<not> B q"
  shows "(dropWhile A (d @ q # y) \<noteq> [] \<and> B (hd (dropWhile A (d @ q # y)))) =
         (dropWhile A d \<noteq> [] \<and> B (hd (dropWhile A d)))"
  using assms by (cases "dropWhile A d") (simp_all add: dropWhile_before)

lemma head_before:
  assumes "\<not> B q"
  shows "(d @ q # y \<noteq> [] \<and> B (hd (d @ q # y))) = (d \<noteq> [] \<and> B (hd d))"
  using assms by (cases d) simp_all

lemma startsWith_before:
  assumes "q \<notin> set k"
  shows "startsWith (s @ q # y) k = startsWith s k"
proof (cases "length k \<le> length s")
  case True
  then show ?thesis by (simp add: startsWith_def)
next
  case False
  then have l: "length s < length k" by simp
  have "take (length k) (s @ q # y) \<noteq> k"
  proof
    assume e: "take (length k) (s @ q # y) = k"
    from l have "take (length k) (s @ q # y) ! length s = q"
      by (simp add: nth_append)
    with e have "k ! length s = q" by simp
    moreover from l have "k ! length s \<in> set k" by (rule nth_mem)
    ultimately have "q \<in> set k" by simp
    with assms show False by simp
  qed
  moreover have "take (length k) s \<noteq> k"
  proof
    assume "take (length k) s = k"
    then have "length (take (length k) s) = length k" by simp
    with l show False by simp
  qed
  ultimately show ?thesis by (simp add: startsWith_def)
qed

lemma keywordThenCJK_before:
  assumes "isQuote q"
  shows "keywordThenCJK (s @ q # y) = keywordThenCJK s"
proof -
  have nq: "\<not> isSpace q" "\<not> isCJK q" using quote_not_class[OF assms] by simp_all
  have one: "(startsWith (s @ q # y) k \<and>
        (let r = drop (length k) (s @ q # y); r' = dropWhile isSpace r
         in r \<noteq> [] \<and> isSpace (hd r) \<and> r' \<noteq> [] \<and> isCJK (hd r'))) =
      (startsWith s k \<and>
        (let r = drop (length k) s; r' = dropWhile isSpace r
         in r \<noteq> [] \<and> isSpace (hd r) \<and> r' \<noteq> [] \<and> isCJK (hd r')))"
    if k: "k \<in> set declKeywords" for k
  proof (cases "startsWith s k")
    case False
    with startsWith_before[OF quote_not_in_keyword[OF assms k], of s y] show ?thesis by simp
  next
    case True
    then have "length (take (length k) s) = length k" by (simp add: startsWith_def)
    then have len: "length k \<le> length s" by simp
    then have d: "drop (length k) (s @ q # y) = drop (length k) s @ q # y" by simp
    from True startsWith_before[OF quote_not_in_keyword[OF assms k], of s y]
    have t: "startsWith (s @ q # y) k" by simp
    show ?thesis
      unfolding Let_def d
      using t True
        head_before[where B = isSpace and q = q and d = "drop (length k) s" and y = y, OF nq(1)]
        head_after_dropWhile[where A = isSpace and B = isCJK and q = q and d = "drop (length k) s" and y = y,
          OF nq(1) nq(2)]
      by simp
  qed
  show ?thesis
    unfolding keywordThenCJK_def list_ex_iff using one by blast
qed

lemma propertyCJK_before:
  assumes "isQuote q"
  shows "propertyCJK (s @ q # y) = propertyCJK s"
proof (cases s)
  case Nil
  with quote_not_class[OF assms] show ?thesis by (simp add: propertyCJK_def)
next
  case (Cons c r)
  have nq: "\<not> isCJK q" "\<not> (q = 58 \<or> isSpace q)" using quote_not_class[OF assms] by simp_all
  show ?thesis
    unfolding Cons propertyCJK_def Let_def
    using head_before[where B = isCJK and q = q and d = r and y = y, OF nq(1)]
      head_after_dropWhile[where A = isCJK and B = "\<lambda>c. c = 58 \<or> isSpace c" and q = q and d = r and y = y,
        OF nq(1) nq(2)]
    by auto
qed

lemma callCJK_before:
  assumes "isQuote q"
  shows "callCJK (s @ q # y) = callCJK s"
proof -
  have nq: "\<not> isCJK q" "\<not> isSpace q" "\<not> q = 40" using quote_not_class[OF assms] by simp_all
  have a: "dropWhile isCJK (s @ q # y) = dropWhile isCJK s @ q # y"
    using nq(1) by (rule dropWhile_before)
  show ?thesis
    unfolding callCJK_def Let_def a
    using head_before[where B = isCJK and q = q and d = s and y = y, OF nq(1)]
      head_after_dropWhile[where A = isSpace and B = "\<lambda>c. c = 40" and q = q and d = "dropWhile isCJK s" and y = y,
        OF nq(2) nq(3)]
    by auto
qed

lemma anywhere_across:
  assumes "\<And>s. P (s @ q # y) = P s" and "\<not> P []"
  shows "anywhere P (x @ q # y) = (anywhere P x \<or> anywhere P y)"
proof (induction x)
  case Nil
  from assms(1)[of "[]"] assms(2) show ?case by simp
next
  case (Cons c x)
  from assms(1)[of "c # x"] Cons show ?case by auto
qed

lemma hasChineseIdentifier_across:
  assumes "isQuote q"
  shows "hasChineseIdentifier (x @ q # y) = (hasChineseIdentifier x \<or> hasChineseIdentifier y)"
proof -
  have a: "anywhere keywordThenCJK (x @ q # y) = (anywhere keywordThenCJK x \<or> anywhere keywordThenCJK y)"
  proof (rule anywhere_across)
    show "keywordThenCJK (s @ q # y) = keywordThenCJK s" for s
      by (rule keywordThenCJK_before[OF assms])
    show "\<not> keywordThenCJK []"
      by (simp add: keywordThenCJK_def list_ex_iff Let_def)
  qed
  have b: "anywhere propertyCJK (x @ q # y) = (anywhere propertyCJK x \<or> anywhere propertyCJK y)"
  proof (rule anywhere_across)
    show "propertyCJK (s @ q # y) = propertyCJK s" for s
      by (rule propertyCJK_before[OF assms])
    show "\<not> propertyCJK []"
      by (simp add: propertyCJK_def)
  qed
  have c: "anywhere callCJK (x @ q # y) = (anywhere callCJK x \<or> anywhere callCJK y)"
  proof (rule anywhere_across)
    show "callCJK (s @ q # y) = callCJK s" for s
      by (rule callCJK_before[OF assms])
    show "\<not> callCJK []"
      by (simp add: callCJK_def)
  qed
  show ?thesis unfolding hasChineseIdentifier_def a b c by auto
qed

lemma hasChineseIdentifier_joinTokens:
  "wfTokens tks \<Longrightarrow> hasChineseIdentifier (w @ joinTokens tks) =
     (hasChineseIdentifier w \<or> list_ex (\<lambda>(q, v). hasChineseIdentifier v) tks)"
proof (induction tks arbitrary: w)
  case Nil
  then show ?case by simp
next
  case (Cons tk tks)
  obtain q v where tk: "tk = (q, v)" by (cases tk)
  from Cons.prems have q: "isQuote q" and r: "wfTokens tks" by (simp_all add: tk wfTokens_def)
  from hasChineseIdentifier_across[OF q, of w "v @ joinTokens tks"] Cons.IH[OF r, of v]
  show ?case by (simp add: tk)
qed

section \<open>An exact entry, word by word\<close>

lemma mapWords_comp: "mapWords f (mapWords g tks) = mapWords (\<lambda>q nq w. f q nq (g q nq w)) tks"
  by (simp add: mapWords_def[of f] triples_mapWords) (simp add: mapWords_def case_prod_beta)

lemma mapWords_cong:
  "(\<And>q nq w. (q, nq, w) \<in> set (triples tks) \<Longrightarrow> f q nq w = g q nq w) \<Longrightarrow>
   mapWords f tks = mapWords g tks"
  by (auto simp: mapWords_def)

lemma mapWords_same: "mapWords (\<lambda>q nq w. w) tks = tks"
  by (induction tks) (auto simp: mapWords_Nil mapWords_Cons)

lemma mapWords_fixed:
  "mapWords f tks = tks \<longleftrightarrow> (\<forall>(q, nq, w) \<in> set (triples tks). f q nq w = w)"
proof -
  have "mapWords f tks = mapWords (\<lambda>q nq w. w) tks \<longleftrightarrow> (\<forall>(q, nq, w) \<in> set (triples tks). f q nq w = w)"
    unfolding mapWords_def by auto
  then show ?thesis by (simp add: mapWords_same)
qed

lemma triples_wf:
  "wfTokens tks \<Longrightarrow> (q, nq, w) \<in> set (triples tks) \<Longrightarrow> isQuote q \<and> quoteFree w"
  by (induction tks) (auto simp: wfTokens_def)

lemma wfTokens_triples:
  "wfTokens tks \<longleftrightarrow> (\<forall>(q, nq, w) \<in> set (triples tks). isQuote q \<and> quoteFree w)"
  by (induction tks) (auto simp: wfTokens_def)

lemma wf_mapWords:
  assumes "wfTokens tks" and "\<And>q nq w. quoteFree w \<Longrightarrow> quoteFree (f q nq w)"
  shows "wfTokens (mapWords f tks)"
  using assms unfolding wfTokens_triples triples_mapWords by auto

lemma sharedQuote_map:
  assumes "\<And>x. quotedKey en (h x) \<Longrightarrow> quotedKey en x"
  shows "sharedQuote en (map h xs) \<Longrightarrow> sharedQuote en xs"
proof (induction xs rule: induct_list012)
  case 1
  then show ?case by simp
next
  case (2 x)
  then show ?case by simp
next
  case (3 x y zs)
  from "3.prems" have "(quotedKey en (h x) \<and> quotedKey en (h y)) \<or> sharedQuote en (map h (y # zs))"
    by simp
  then show ?case
  proof
    assume "quotedKey en (h x) \<and> quotedKey en (h y)"
    then have "quotedKey en x \<and> quotedKey en y" using assms by blast
    then show ?thesis by simp
  next
    assume "sharedQuote en (map h (y # zs))"
    then have "sharedQuote en (y # zs)" by (rule "3.IH"(2))
    then show ?thesis by simp
  qed
qed

lemma sharedQuote_mapWords:
  assumes "\<And>q nq w. f q nq w = en \<Longrightarrow> w = en"
    and "sharedQuote en (triples (mapWords f tks))"
  shows "sharedQuote en (triples tks)"
proof -
  have "quotedKey en ((\<lambda>(q, nq, w). (q, nq, f q nq w)) x) \<Longrightarrow> quotedKey en x" for x
  proof -
    assume a: "quotedKey en ((\<lambda>(q, nq, w). (q, nq, f q nq w)) x)"
    obtain q nq w where x: "x = (q, nq, w)" by (cases x)
    from a have "nq = Some q" and "f q nq w = en" by (auto simp: x quotedKey_def)
    with assms(1)[of q nq w] show ?thesis by (simp add: x quotedKey_def)
  qed
  from sharedQuote_map[of en "\<lambda>(q, nq, w). (q, nq, f q nq w)", OF this] assms(2)
  show ?thesis by (simp add: triples_mapWords)
qed

lemma words_mapWords:
  "list_ex (\<lambda>(q, v). P v) (mapWords f tks) \<longleftrightarrow> (\<exists>(q, nq, w) \<in> set (triples tks). P (f q nq w))"
  by (simp add: mapWords_def list_ex_iff case_prod_beta)

lemma words_triples:
  "list_ex (\<lambda>(q, v). P v) tks \<longleftrightarrow> (\<exists>(q, nq, w) \<in> set (triples tks). P w)"
  using words_mapWords[of P "\<lambda>q nq w. w" tks] by (simp add: mapWords_same)

lemma three_quotes_fused:
  assumes "isQuote q"
  shows "(\<lambda>a b w. if a = backtick \<and> b = Some backtick \<and> w = en then zh else w) q nq
           ((\<lambda>a b w. if a = squote \<and> b = Some squote \<and> w = en then zh else w) q nq
             ((\<lambda>a b w. if a = dquote \<and> b = Some dquote \<and> w = en then zh else w) q nq w)) =
         translateWord en zh q nq w"
  using assms by (auto simp: isQuote_cases translateWord_def dquote_def squote_def backtick_def)

lemma exactText_tokens:
  assumes en: "quoteFree en" and zh: "quoteFree zh" and w0: "quoteFree w0"
    and wf: "wfTokens tks" and ns: "\<not> sharedQuote en (triples tks)"
  shows "exactText en zh (w0 @ joinTokens tks) = w0 @ joinTokens (mapWords (translateWord en zh) tks)"
proof -
  let ?f = "\<lambda>q0 a b w. if a = q0 \<and> b = Some q0 \<and> w = en then zh else w"
  have qs: "isQuote dquote" "isQuote squote" "isQuote backtick"
    by (simp_all add: isQuote_def quoteChars_def)
  have keep: "quoteFree (?f q0 a b w)" if "quoteFree w"
    for q0 a :: nat and b :: "nat option" and w :: jsstring
    using that zh by simp
  have own: "w = en" if "?f q0 a b w = en"
    for q0 a :: nat and b :: "nat option" and w :: jsstring
    using that by (auto split: if_splits)
  have step: "replaceLiteral (q0 # en @ [q0]) (q0 # zh @ [q0]) (w0 @ joinTokens ts) =
        w0 @ joinTokens (mapWords (?f q0) ts)"
    if "isQuote q0" "wfTokens ts" "\<not> sharedQuote en (triples ts)" for q0 ts
    using replaceLiteral_skip[OF quoteFree_notin[OF w0 that(1)], of "en @ [q0]" "q0 # zh @ [q0]" "joinTokens ts"]
      replaceLiteral_tokens[OF en that(1) that(2) that(3), of zh]
    by simp
  let ?t1 = "mapWords (?f dquote) tks"
  let ?t2 = "mapWords (?f squote) ?t1"
  let ?t3 = "mapWords (?f backtick) ?t2"
  have wf1: "wfTokens ?t1" using wf keep by (rule wf_mapWords)
  have wf2: "wfTokens ?t2" using wf1 keep by (rule wf_mapWords)
  have ns1: "\<not> sharedQuote en (triples ?t1)"
  proof
    assume a: "sharedQuote en (triples ?t1)"
    have "sharedQuote en (triples tks)"
    proof (rule sharedQuote_mapWords[where f = "?f dquote"])
      show "w = en" if "?f dquote q nq w = en" for q nq w using that by (rule own)
      show "sharedQuote en (triples ?t1)" by (rule a)
    qed
    with ns show False by simp
  qed
  have ns2: "\<not> sharedQuote en (triples ?t2)"
  proof
    assume a: "sharedQuote en (triples ?t2)"
    have "sharedQuote en (triples ?t1)"
    proof (rule sharedQuote_mapWords[where f = "?f squote"])
      show "w = en" if "?f squote q nq w = en" for q nq w using that by (rule own)
      show "sharedQuote en (triples ?t2)" by (rule a)
    qed
    with ns1 show False by simp
  qed
  have "exactText en zh (w0 @ joinTokens tks) = w0 @ joinTokens ?t3"
    unfolding exactText_three
    by (simp only: step[OF qs(1) wf ns] step[OF qs(2) wf1 ns1] step[OF qs(3) wf2 ns2])
  also have "?t3 = mapWords (translateWord en zh) tks"
    unfolding mapWords_comp
    by (rule mapWords_cong) (use triples_wf[OF wf] three_quotes_fused in blast)
  finally show ?thesis .
qed

section \<open>Exact entries on texts without shared quotes\<close>

lemma translateWord_quoteFree: "quoteFree zh \<Longrightarrow> quoteFree w \<Longrightarrow> quoteFree (translateWord en zh q nq w)"
  by (simp add: translateWord_def)

lemma exactText_split:
  assumes g: "goodEntry K en zh" and inv: "noSharedQuote K t"
  shows "exactText en zh t =
           fst (splitQuotes t) @ joinTokens (mapWords (translateWord en zh) (snd (splitQuotes t)))"
    and "splitQuotes (exactText en zh t) =
           (fst (splitQuotes t), mapWords (translateWord en zh) (snd (splitQuotes t)))"
proof -
  let ?w0 = "fst (splitQuotes t)" and ?tks = "snd (splitQuotes t)"
  from g have en: "quoteFree en" and zh: "quoteFree zh" and k: "en \<in> set K"
    by (simp_all add: goodEntry_def)
  from splitQuotes_wf[of t] have w0: "quoteFree ?w0" and wf: "wfTokens ?tks" by simp_all
  from inv k have ns: "\<not> sharedQuote en (triples ?tks)"
    by (auto simp: noSharedQuote_def list_all_iff)
  have t: "t = ?w0 @ joinTokens ?tks"
    using joinQuotes_splitQuotes[of t] by (simp add: joinQuotes_def case_prod_beta)
  from exactText_tokens[OF en zh w0 wf ns] t
  show a: "exactText en zh t = ?w0 @ joinTokens (mapWords (translateWord en zh) ?tks)" by simp
  have "wfTokens (mapWords (translateWord en zh) ?tks)"
    using wf by (rule wf_mapWords) (simp add: translateWord_quoteFree zh)
  from splitQuotes_joinQuotes[OF w0 this] a
  show "splitQuotes (exactText en zh t) = (?w0, mapWords (translateWord en zh) ?tks)"
    by (simp add: joinQuotes_def)
qed

lemma exactText_closed:
  assumes g: "goodEntry K en zh" and inv: "noSharedQuote K t"
  shows "noSharedQuote K (exactText en zh t)"
proof -
  from g have zh: "zh \<notin> set K" by (simp add: goodEntry_def)
  have "\<not> sharedQuote k (triples (mapWords (translateWord en zh) (snd (splitQuotes t))))"
    if k: "k \<in> set K" for k
  proof
    assume a: "sharedQuote k (triples (mapWords (translateWord en zh) (snd (splitQuotes t))))"
    have "sharedQuote k (triples (snd (splitQuotes t)))"
    proof (rule sharedQuote_mapWords[where f = "translateWord en zh"])
      show "w = k" if "translateWord en zh q nq w = k" for q nq w
        using that k zh by (auto simp: translateWord_def split: if_splits)
      show "sharedQuote k (triples (mapWords (translateWord en zh) (snd (splitQuotes t))))" by (rule a)
    qed
    with inv k show False by (auto simp: noSharedQuote_def list_all_iff)
  qed
  then show ?thesis
    by (simp add: noSharedQuote_def list_all_iff exactText_split(2)[OF g inv])
qed

lemma exactText_twice:
  assumes g: "goodEntry K en zh" and inv: "noSharedQuote K t"
  shows "exactText en zh (exactText en zh t) = exactText en zh t"
proof -
  let ?u = "exactText en zh t"
  let ?w0 = "fst (splitQuotes t)" and ?tks = "snd (splitQuotes t)"
  have eq: "mapWords (translateWord en zh) (mapWords (translateWord en zh) ?tks) =
        mapWords (translateWord en zh) ?tks"
    unfolding mapWords_comp by (rule mapWords_cong) (simp add: translateWord_def)
  have "exactText en zh ?u =
      fst (splitQuotes ?u) @ joinTokens (mapWords (translateWord en zh) (snd (splitQuotes ?u)))"
    by (rule exactText_split(1)[OF g exactText_closed[OF g inv]])
  also have "\<dots> = ?w0 @ joinTokens (mapWords (translateWord en zh) (mapWords (translateWord en zh) ?tks))"
    by (simp only: exactText_split(2)[OF g inv] fst_conv snd_conv)
  also have "\<dots> = ?w0 @ joinTokens (mapWords (translateWord en zh) ?tks)"
    by (simp only: eq)
  also have "\<dots> = ?u"
    by (rule exactText_split(1)[OF g inv, symmetric])
  finally show ?thesis .
qed

lemma exactText_later:
  assumes gi: "goodEntry K en zh" and gj: "goodEntry K en' zh'" and inv: "noSharedQuote K t"
    and fixed: "exactText en zh t = t"
  shows "exactText en zh (exactText en' zh' t) = exactText en' zh' t"
proof -
  let ?tks = "snd (splitQuotes t)"
  from gi gj have en: "en \<in> set K" and zh': "zh' \<notin> set K" by (simp_all add: goodEntry_def)
  from exactText_split(2)[OF gi inv] fixed have "mapWords (translateWord en zh) ?tks = ?tks"
    by (metis snd_conv)
  then have pw: "translateWord en zh q nq w = w" if "(q, nq, w) \<in> set (triples ?tks)" for q nq w
    using that unfolding mapWords_fixed by blast
  have "mapWords (translateWord en zh) (mapWords (translateWord en' zh') ?tks) =
        mapWords (translateWord en' zh') ?tks"
    unfolding mapWords_comp
  proof (rule mapWords_cong)
    fix q nq w assume "(q, nq, w) \<in> set (triples ?tks)"
    from pw[OF this] en zh'
    show "translateWord en zh q nq (translateWord en' zh' q nq w) = translateWord en' zh' q nq w"
      by (auto simp: translateWord_def split: if_splits)
  qed
  then have eq: "mapWords (translateWord en zh) (mapWords (translateWord en' zh') ?tks) =
        mapWords (translateWord en' zh') ?tks" .
  let ?u = "exactText en' zh' t"
  have "exactText en zh ?u =
      fst (splitQuotes ?u) @ joinTokens (mapWords (translateWord en zh) (snd (splitQuotes ?u)))"
    by (rule exactText_split(1)[OF gi exactText_closed[OF gj inv]])
  also have "\<dots> = fst (splitQuotes t) @
      joinTokens (mapWords (translateWord en zh) (mapWords (translateWord en' zh') ?tks))"
    by (simp only: exactText_split(2)[OF gj inv] fst_conv snd_conv)
  also have "\<dots> = fst (splitQuotes t) @ joinTokens (mapWords (translateWord en' zh') ?tks)"
    by (simp only: eq)
  also have "\<dots> = ?u"
    by (rule exactText_split(1)[OF gj inv, symmetric])
  finally show ?thesis .
qed

lemma exactText_uniform:
  assumes g: "goodEntry K en zh"
  shows "(\<forall>t. noSharedQuote K t \<and> exactText en zh t \<noteq> t \<longrightarrow> hasChineseIdentifier (exactText en zh t))
         \<or> (\<forall>t. noSharedQuote K t \<and> \<not> hasChineseIdentifier t \<longrightarrow> \<not> hasChineseIdentifier (exactText en zh t))"
proof -
  from g have zh: "quoteFree zh" by (simp add: goodEntry_def)
  have has: "hasChineseIdentifier (exactText en zh t) =
      (hasChineseIdentifier (fst (splitQuotes t))
       \<or> (\<exists>(q, nq, w) \<in> set (triples (snd (splitQuotes t))).
             hasChineseIdentifier (translateWord en zh q nq w)))"
    if inv: "noSharedQuote K t" for t
  proof -
    have "wfTokens (mapWords (translateWord en zh) (snd (splitQuotes t)))"
      using splitQuotes_wf[of t] by (intro wf_mapWords) (simp_all add: translateWord_quoteFree zh)
    from hasChineseIdentifier_joinTokens[OF this, of "fst (splitQuotes t)"] show ?thesis
      by (simp add: exactText_split(1)[OF g inv] words_mapWords)
  qed
  have has0: "hasChineseIdentifier t =
      (hasChineseIdentifier (fst (splitQuotes t))
       \<or> (\<exists>(q, nq, w) \<in> set (triples (snd (splitQuotes t))). hasChineseIdentifier w))" for t
  proof -
    have "t = fst (splitQuotes t) @ joinTokens (snd (splitQuotes t))"
      using joinQuotes_splitQuotes[of t] by (simp add: joinQuotes_def case_prod_beta)
    then have "hasChineseIdentifier t =
        hasChineseIdentifier (fst (splitQuotes t) @ joinTokens (snd (splitQuotes t)))" by simp
    also have "\<dots> = (hasChineseIdentifier (fst (splitQuotes t))
       \<or> list_ex (\<lambda>(q, v). hasChineseIdentifier v) (snd (splitQuotes t)))"
      using splitQuotes_wf[of t] by (intro hasChineseIdentifier_joinTokens) simp
    finally show ?thesis by (simp add: words_triples)
  qed
  show ?thesis
  proof (cases "hasChineseIdentifier zh")
    case True
    have "hasChineseIdentifier (exactText en zh t)"
      if inv: "noSharedQuote K t" and ch: "exactText en zh t \<noteq> t" for t
    proof -
      have "mapWords (translateWord en zh) (snd (splitQuotes t)) \<noteq> snd (splitQuotes t)"
      proof
        assume "mapWords (translateWord en zh) (snd (splitQuotes t)) = snd (splitQuotes t)"
        with exactText_split(1)[OF g inv] joinQuotes_splitQuotes[of t] ch show False
          by (simp add: joinQuotes_def case_prod_beta)
      qed
      then obtain q nq w where m: "(q, nq, w) \<in> set (triples (snd (splitQuotes t)))"
        and c: "translateWord en zh q nq w \<noteq> w"
        unfolding mapWords_fixed by blast
      from c have "translateWord en zh q nq w = zh" by (auto simp: translateWord_def split: if_splits)
      with True m show ?thesis unfolding has[OF inv] by force
    qed
    then show ?thesis by blast
  next
    case False
    have "\<not> hasChineseIdentifier (exactText en zh t)"
      if inv: "noSharedQuote K t" and cl: "\<not> hasChineseIdentifier t" for t
    proof -
      from cl has0[of t] have a: "\<not> hasChineseIdentifier (fst (splitQuotes t))"
        and b: "\<forall>(q, nq, w) \<in> set (triples (snd (splitQuotes t))). \<not> hasChineseIdentifier w"
        by blast+
      have "\<forall>(q, nq, w) \<in> set (triples (snd (splitQuotes t))).
          \<not> hasChineseIdentifier (translateWord en zh q nq w)"
        using b False by (auto simp: translateWord_def)
      with a show ?thesis unfolding has[OF inv] by blast
    qed
    then show ?thesis by blast
  qed
qed

section \<open>Two runs of an exact map\<close>

lemma anywhere_head: "P t \<Longrightarrow> anywhere P t"
  by (cases t) simp_all

lemma occurs_self: "occurs p (p @ b)"
  unfolding occurs_def by (rule anywhere_head) (rule startsWith_self_append)

lemma occurs_behind: "occurs p t \<Longrightarrow> occurs p (a @ t)"
  by (induction a) (simp_all add: occurs_def)

lemma sharedQuote_occurs:
  "wfTokens tks \<Longrightarrow> sharedQuote en (triples tks) \<Longrightarrow>
   \<exists>q. isQuote q \<and> occurs (q # en @ q # en @ [q]) (w0 @ joinTokens tks)"
proof (induction tks arbitrary: w0)
  case Nil
  then show ?case by simp
next
  case (Cons tk1 r1)
  obtain q1 w1 where tk1: "tk1 = (q1, w1)" by (cases tk1)
  from Cons.prems(1) have q1: "isQuote q1" and wr1: "wfTokens r1" by (simp_all add: tk1 wfTokens_def)
  show ?case
  proof (cases r1)
    case Nil
    with Cons.prems(2) show ?thesis by (simp add: tk1)
  next
    case (Cons tk2 r2)
    obtain q2 w2 where tk2: "tk2 = (q2, w2)" by (cases tk2)
    let ?x = "(q1, Some q2, w1)"
    let ?y = "(q2, (case r2 of [] \<Rightarrow> None | (q', w') # r \<Rightarrow> Some q'), w2)"
    from Cons.prems(2) have "(quotedKey en ?x \<and> quotedKey en ?y) \<or> sharedQuote en (triples r1)"
      by (simp add: tk1 Cons tk2)
    then show ?thesis
    proof
      assume both: "quotedKey en ?x \<and> quotedKey en ?y"
      then have a: "q2 = q1" "w1 = en" "w2 = en" by (auto simp: quotedKey_def)
      from both obtain q3 w3 r3 where r2: "r2 = (q3, w3) # r3" and q3: "q3 = q2"
        by (cases r2) (auto simp: quotedKey_def)
      have "w0 @ joinTokens (tk1 # r1) = w0 @ (q1 # en @ q1 # en @ [q1]) @ (w3 @ joinTokens r3)"
        by (simp add: tk1 Cons tk2 r2 q3 a)
      moreover have "occurs (q1 # en @ q1 # en @ [q1]) (w0 @ (q1 # en @ q1 # en @ [q1]) @ (w3 @ joinTokens r3))"
        by (rule occurs_behind) (rule occurs_self)
      ultimately show ?thesis using q1 by auto
    next
      assume "sharedQuote en (triples r1)"
      from Cons.IH[OF wr1 this, of "w0 @ q1 # w1"] show ?thesis by (simp add: tk1)
    qed
  qed
qed

lemma noSharedQuote_input:
  assumes "list_all (\<lambda>en. list_all (\<lambda>q. \<not> occurs (q # en @ q # en @ [q]) t) quoteChars) K"
  shows "noSharedQuote K t"
proof -
  have "\<not> sharedQuote en (triples (snd (splitQuotes t)))" if k: "en \<in> set K" for en
  proof
    assume "sharedQuote en (triples (snd (splitQuotes t)))"
    from sharedQuote_occurs[OF _ this, of "fst (splitQuotes t)"] splitQuotes_wf[of t]
    obtain q where q: "isQuote q"
      and o: "occurs (q # en @ q # en @ [q]) (fst (splitQuotes t) @ joinTokens (snd (splitQuotes t)))"
      by blast
    have "fst (splitQuotes t) @ joinTokens (snd (splitQuotes t)) = t"
      using joinQuotes_splitQuotes[of t] by (simp add: joinQuotes_def case_prod_beta)
    with o have "occurs (q # en @ q # en @ [q]) t" by simp
    with assms k q show False by (auto simp: list_all_iff isQuote_def)
  qed
  then show ?thesis by (simp add: noSharedQuote_def list_all_iff)
qed

lemma plain_rules_idempotent:
  assumes rules: "\<And>g. g \<in> set gs \<Longrightarrow>
      (\<forall>t. g t = t) \<or> (\<exists>en zh. goodEntry K en zh \<and> g = exactText en zh)"
    and inv: "noSharedQuote K s"
  shows "guardedRun gs (guardedRun gs s) = guardedRun gs s"
proof (rule guardedRun_idempotent[where Inv = "noSharedQuote K"])
  show "noSharedQuote K s" by (rule inv)
next
  fix g t assume "g \<in> set gs" and i: "noSharedQuote K t"
  from rules[OF this(1)] i show "noSharedQuote K (g t)"
    by (auto simp: exactText_closed)
next
  fix g t assume "g \<in> set gs" and i: "noSharedQuote K t"
  from rules[OF this(1)] i show "g (g t) = g t"
    by (auto simp: exactText_twice)
next
  fix i j t
  assume ij: "i < j" "j < length gs" and inv: "noSharedQuote K t" and fx: "(gs ! i) t = t"
  from ij have "gs ! i \<in> set gs" and "gs ! j \<in> set gs" by simp_all
  from rules[OF this(1)] rules[OF this(2)] inv fx
  show "(gs ! i) ((gs ! j) t) = (gs ! j) t"
    by (auto simp: exactText_later)
next
  fix g assume "g \<in> set gs"
  from rules[OF this]
  show "(\<forall>t. noSharedQuote K t \<and> g t \<noteq> t \<longrightarrow> hasChineseIdentifier (g t))
        \<or> (\<forall>t. noSharedQuote K t \<and> \<not> hasChineseIdentifier t \<longrightarrow> \<not> hasChineseIdentifier (g t))"
  proof
    assume "\<forall>t. g t = t"
    then show ?thesis by simp
  next
    assume "\<exists>en zh. goodEntry K en zh \<and> g = exactText en zh"
    then obtain en zh where "goodEntry K en zh" and "g = exactText en zh" by blast
    with exactText_uniform[of K en zh] show ?thesis by simp
  qed
qed

lemma rawRules_plain:
  assumes es: "plainEntries (entriesOf m)"
    and ps: "list_all (\<lambda>p. re (match p) = None) (patternsOf m)"
    and g: "g \<in> set (rawRules re m)"
  shows "(\<forall>t. g t = t) \<or> (\<exists>en zh. goodEntry (exactKeys (entriesOf m)) en zh \<and> g = exactText en zh)"
proof -
  from g have "g \<in> rawExact ` set (entriesOf m) \<or> g \<in> rawPattern re ` set (patternsOf m)"
    by (auto simp: rawRules_def entriesOf_def patternsOf_def)
  then show ?thesis
  proof
    assume "g \<in> rawExact ` set (entriesOf m)"
    then obtain en zh where e: "(en, zh) \<in> set (entriesOf m)" and ge: "g = rawExact (en, zh)" by auto
    show ?thesis
    proof (cases "startsWith en (asc ''_'')")
      case True
      with ge show ?thesis by (simp add: rawExact_def)
    next
      case False
      from es e False have "quoteFree en \<and> quoteFree zh \<and> zh \<notin> set (exactKeys (entriesOf m))"
        by (auto simp: plainEntries_def list_all_iff)
      moreover from e False have "en \<in> set (exactKeys (entriesOf m))"
        by (force simp: exactKeys_def)
      moreover from ge False have "g = exactText en zh"
        by (auto simp: rawExact_def)
      ultimately show ?thesis by (auto simp: goodEntry_def)
    qed
  next
    assume "g \<in> rawPattern re ` set (patternsOf m)"
    then obtain p where "p \<in> set (patternsOf m)" and gp: "g = rawPattern re p" by auto
    with ps have "re (match p) = None" by (auto simp: list_all_iff)
    with gp show ?thesis by (simp add: rawPattern_def)
  qed
qed

lemma firstRun_guardedRun:
  "firstRun re this source filename =
     (case l10nMap this of None \<Rightarrow> source | Some m \<Rightarrow> guardedRun (rawRules re m) source)"
  by (simp add: firstRun_def replaceStrings_fst runRules_guardedRun split: option.splits)

lemma secondRun_guardedRun:
  "secondRun re this source filename =
     (case l10nMap this of None \<Rightarrow> source
      | Some m \<Rightarrow> guardedRun (rawRules re m) (guardedRun (rawRules re m) source))"
proof -
  let ?this' = "fst (snd (replaceStrings re this source filename))"
  let ?out = "fst (replaceStrings re this source filename)"
  have a: "secondRun re this source filename = fst (replaceStrings re ?this' ?out filename)"
    by (simp add: secondRun_def case_prod_beta)
  have b: "fst (replaceStrings re ?this' ?out filename) =
      (case l10nMap this of None \<Rightarrow> ?out | Some m \<Rightarrow> result (runRules re m ?out))"
    by (simp only: replaceStrings_fst[of re ?this'] replaceStrings_l10nMap)
  have c: "?out = (case l10nMap this of None \<Rightarrow> source | Some m \<Rightarrow> result (runRules re m source))"
    by (rule replaceStrings_fst)
  show ?thesis
  proof (cases "l10nMap this")
    case None
    with a b c show ?thesis by simp
  next
    case (Some m)
    with c have "?out = guardedRun (rawRules re m) source" by (simp add: runRules_guardedRun)
    with a b Some show ?thesis by (simp add: runRules_guardedRun)
  qed
qed

text \<open>
  C5, as the code has it. A second run of \<open>replaceStrings\<close> on the output of a first run
  returns that output
  \<^item> when no map is loaded;
  \<^item> for a map in which every pattern is malformed (or there is none), no key and no
    translation of an exact entry holds a quote character and no translation is a key
    (entries with an underscore key apart), on every text in which no key stands twice
    in quotes with the middle quote shared;
  \<^item> for any map, on every text of a class of texts that the rules of the map do not
    lead out of and on which every rule, applied to what it wrote, changes nothing, no
    rule gives a rule before it something to replace, and every rule either introduces a
    corruption signature wherever it changes the text or never introduces one.
\<close>

theorem idempotent_on_closed_class:
  "(l10nMap this = None \<longrightarrow> secondRun re this source filename = firstRun re this source filename)
   \<and> (l10nMap this = Some m
        \<and> plainEntries (entriesOf m)
        \<and> list_all (\<lambda>p. re (match p) = None) (patternsOf m)
        \<and> list_all (\<lambda>en. list_all (\<lambda>q. \<not> occurs (q # en @ q # en @ [q]) source) quoteChars)
             (exactKeys (entriesOf m)) \<longrightarrow>
      secondRun re this source filename = firstRun re this source filename)
   \<and> (l10nMap this = Some m
        \<and> Inv source
        \<and> (\<forall>g \<in> set (rawRules re m). \<forall>t. Inv t \<longrightarrow> Inv (g t))
        \<and> (\<forall>g \<in> set (rawRules re m). \<forall>t. Inv t \<longrightarrow> g (g t) = g t)
        \<and> (\<forall>i j t. i < j \<and> j < length (rawRules re m) \<and> Inv t \<and> (rawRules re m ! i) t = t \<longrightarrow>
               (rawRules re m ! i) ((rawRules re m ! j) t) = (rawRules re m ! j) t)
        \<and> (\<forall>g \<in> set (rawRules re m).
               (\<forall>t. Inv t \<and> g t \<noteq> t \<longrightarrow> hasChineseIdentifier (g t))
               \<or> (\<forall>t. Inv t \<and> \<not> hasChineseIdentifier t \<longrightarrow> \<not> hasChineseIdentifier (g t))) \<longrightarrow>
      secondRun re this source filename = firstRun re this source filename)"
proof (intro conjI impI)
  assume "l10nMap this = None"
  then show "secondRun re this source filename = firstRun re this source filename"
    by (simp add: secondRun_guardedRun firstRun_guardedRun)
next
  assume h: "l10nMap this = Some m
        \<and> plainEntries (entriesOf m)
        \<and> list_all (\<lambda>p. re (match p) = None) (patternsOf m)
        \<and> list_all (\<lambda>en. list_all (\<lambda>q. \<not> occurs (q # en @ q # en @ [q]) source) quoteChars)
             (exactKeys (entriesOf m))"
  then have inv: "noSharedQuote (exactKeys (entriesOf m)) source"
    by (intro noSharedQuote_input) simp
  have "guardedRun (rawRules re m) (guardedRun (rawRules re m) source) = guardedRun (rawRules re m) source"
  proof (rule plain_rules_idempotent[where K = "exactKeys (entriesOf m)"])
    fix g assume "g \<in> set (rawRules re m)"
    with h show "(\<forall>t. g t = t) \<or> (\<exists>en zh. goodEntry (exactKeys (entriesOf m)) en zh \<and> g = exactText en zh)"
      by (intro rawRules_plain) simp_all
  next
    show "noSharedQuote (exactKeys (entriesOf m)) source" by (rule inv)
  qed
  with h show "secondRun re this source filename = firstRun re this source filename"
    by (simp add: secondRun_guardedRun firstRun_guardedRun)
next
  assume h: "l10nMap this = Some m
        \<and> Inv source
        \<and> (\<forall>g \<in> set (rawRules re m). \<forall>t. Inv t \<longrightarrow> Inv (g t))
        \<and> (\<forall>g \<in> set (rawRules re m). \<forall>t. Inv t \<longrightarrow> g (g t) = g t)
        \<and> (\<forall>i j t. i < j \<and> j < length (rawRules re m) \<and> Inv t \<and> (rawRules re m ! i) t = t \<longrightarrow>
               (rawRules re m ! i) ((rawRules re m ! j) t) = (rawRules re m ! j) t)
        \<and> (\<forall>g \<in> set (rawRules re m).
               (\<forall>t. Inv t \<and> g t \<noteq> t \<longrightarrow> hasChineseIdentifier (g t))
               \<or> (\<forall>t. Inv t \<and> \<not> hasChineseIdentifier t \<longrightarrow> \<not> hasChineseIdentifier (g t)))"
  have "guardedRun (rawRules re m) (guardedRun (rawRules re m) source) = guardedRun (rawRules re m) source"
  proof (rule guardedRun_idempotent[where Inv = Inv])
    show "Inv source" using h by blast
    show "Inv (g t)" if "g \<in> set (rawRules re m)" "Inv t" for g t using h that by blast
    show "g (g t) = g t" if "g \<in> set (rawRules re m)" "Inv t" for g t using h that by blast
    show "(rawRules re m ! i) ((rawRules re m ! j) t) = (rawRules re m ! j) t"
      if "i < j" "j < length (rawRules re m)" "Inv t" "(rawRules re m ! i) t = t" for i j t
      using h that by blast
    show "(\<forall>t. Inv t \<and> g t \<noteq> t \<longrightarrow> hasChineseIdentifier (g t))
          \<or> (\<forall>t. Inv t \<and> \<not> hasChineseIdentifier t \<longrightarrow> \<not> hasChineseIdentifier (g t))"
      if "g \<in> set (rawRules re m)" for g using h that by blast
  qed
  with h show "secondRun re this source filename = firstRun re this source filename"
    by (simp add: secondRun_guardedRun firstRun_guardedRun)
qed

theorem idempotent_on_closed_class_witness:
  "l10nMap ((pluginWith openMap)\<lparr>l10nMap := None\<rparr>) = None
   \<and> secondRun literalRegExp ((pluginWith openMap)\<lparr>l10nMap := None\<rparr>) quotesSource (asc ''a.js'') =
       firstRun literalRegExp ((pluginWith openMap)\<lparr>l10nMap := None\<rparr>) quotesSource (asc ''a.js'')
   \<and> plainEntries (entriesOf openMap)
   \<and> list_all (\<lambda>p. literalRegExp (match p) = None) (patternsOf openMap)
   \<and> list_all (\<lambda>en. list_all (\<lambda>q. \<not> occurs (q # en @ q # en @ [q]) quotesSource) quoteChars)
        (exactKeys (entriesOf openMap))
   \<and> secondRun literalRegExp (pluginWith openMap) quotesSource (asc ''a.js'') =
       firstRun literalRegExp (pluginWith openMap) quotesSource (asc ''a.js'')
   \<and> firstRun literalRegExp (pluginWith openMap) quotesSource (asc ''a.js'') = quotesResult
   \<and> rollbackClass rollbackSource
   \<and> secondRun literalRegExp (pluginWith rollbackMap) rollbackSource (asc ''a.js'') =
       firstRun literalRegExp (pluginWith rollbackMap) rollbackSource (asc ''a.js'')
   \<and> firstRun literalRegExp (pluginWith rollbackMap) rollbackSource (asc ''a.js'') = rollbackOpen"
proof -
  let ?g1 = "rawExact (asc ''Open'', zhOpen)"
  let ?g2 = "rawPattern literalRegExp \<lparr>match = asc ''Home'', replace = zhTranslation\<rparr>"
  have n: "l10nMap ((pluginWith openMap)\<lparr>l10nMap := None\<rparr>) = None"
    by simp
  have lo: "l10nMap (pluginWith openMap) = Some openMap"
    and lr: "l10nMap (pluginWith rollbackMap) = Some rollbackMap"
    by (simp_all add: pluginWith_def)
  have p1: "plainEntries (entriesOf openMap)"
    by code_simp
  have p2: "list_all (\<lambda>p. literalRegExp (match p) = None) (patternsOf openMap)"
    by (simp add: patternsOf_def webviewPatternsOf_def statusBarPatternsOf_def openMap_def)
  have p3: "list_all (\<lambda>en. list_all (\<lambda>q. \<not> occurs (q # en @ q # en @ [q]) quotesSource) quoteChars)
        (exactKeys (entriesOf openMap))"
    by code_simp
  have v1: "firstRun literalRegExp (pluginWith openMap) quotesSource (asc ''a.js'') = quotesResult"
    by code_simp
  have v2: "firstRun literalRegExp (pluginWith rollbackMap) rollbackSource (asc ''a.js'') = rollbackOpen"
    by code_simp
  have gs: "rawRules literalRegExp rollbackMap = [?g1, ?g2]"
    by (simp add: rawRules_def rollbackMap_def exactOf_def webviewPatternsOf_def statusBarPatternsOf_def)
  have f1: "?g1 rollbackSource = rollbackOpen" "?g1 rollbackOpen = rollbackOpen"
    "?g1 rollbackHome = rollbackBoth" "?g1 rollbackBoth = rollbackBoth"
    by code_simp+
  have f2: "?g2 rollbackSource = rollbackHome" "?g2 rollbackOpen = rollbackBoth"
    "?g2 rollbackHome = rollbackHome" "?g2 rollbackBoth = rollbackBoth"
    by code_simp+
  have s: "\<not> hasChineseIdentifier rollbackSource" "\<not> hasChineseIdentifier rollbackOpen"
    "hasChineseIdentifier rollbackHome" "hasChineseIdentifier rollbackBoth"
    by code_simp+
  have d: "rollbackOpen \<noteq> rollbackSource" "rollbackBoth \<noteq> rollbackHome"
    by code_simp+
  have c0: "rollbackClass rollbackSource"
    by (simp add: rollbackClass_def)
  have c1: "\<forall>g \<in> set (rawRules literalRegExp rollbackMap). \<forall>t. rollbackClass t \<longrightarrow> rollbackClass (g t)"
    unfolding gs rollbackClass_def using f1 f2 by auto
  have c2: "\<forall>g \<in> set (rawRules literalRegExp rollbackMap). \<forall>t. rollbackClass t \<longrightarrow> g (g t) = g t"
    unfolding gs rollbackClass_def using f1 f2 by auto
  have c3: "\<forall>i j t. i < j \<and> j < length (rawRules literalRegExp rollbackMap) \<and> rollbackClass t
        \<and> (rawRules literalRegExp rollbackMap ! i) t = t \<longrightarrow>
      (rawRules literalRegExp rollbackMap ! i) ((rawRules literalRegExp rollbackMap ! j) t) =
        (rawRules literalRegExp rollbackMap ! j) t"
  proof (intro allI impI)
    fix i j t
    assume a: "i < j \<and> j < length (rawRules literalRegExp rollbackMap) \<and> rollbackClass t
        \<and> (rawRules literalRegExp rollbackMap ! i) t = t"
    then have "j < 2" and "i < j" by (simp_all add: gs)
    then have ij: "i = 0" "j = 1" by simp_all
    from a have t: "rollbackClass t" and fx: "?g1 t = t" by (simp_all add: gs ij)
    from t fx f1 f2 d
    have "?g1 (?g2 t) = ?g2 t" by (auto simp: rollbackClass_def)
    then show "(rawRules literalRegExp rollbackMap ! i) ((rawRules literalRegExp rollbackMap ! j) t) =
        (rawRules literalRegExp rollbackMap ! j) t"
      by (simp add: gs ij)
  qed
  have u1: "\<forall>t. rollbackClass t \<and> \<not> hasChineseIdentifier t \<longrightarrow> \<not> hasChineseIdentifier (?g1 t)"
    using f1 s by (auto simp: rollbackClass_def)
  have u2: "\<forall>t. rollbackClass t \<and> ?g2 t \<noteq> t \<longrightarrow> hasChineseIdentifier (?g2 t)"
    using f2 s by (auto simp: rollbackClass_def)
  have c4: "\<forall>g \<in> set (rawRules literalRegExp rollbackMap).
      (\<forall>t. rollbackClass t \<and> g t \<noteq> t \<longrightarrow> hasChineseIdentifier (g t))
      \<or> (\<forall>t. rollbackClass t \<and> \<not> hasChineseIdentifier t \<longrightarrow> \<not> hasChineseIdentifier (g t))"
    unfolding gs using u1 u2 by simp
  note i0 = idempotent_on_closed_class
    [where this = "(pluginWith openMap)\<lparr>l10nMap := None\<rparr>" and re = literalRegExp
       and source = quotesSource and filename = "asc ''a.js''"]
  note i1 = idempotent_on_closed_class
    [where this = "pluginWith openMap" and m = openMap and re = literalRegExp
       and source = quotesSource and filename = "asc ''a.js''"]
  note i2 = idempotent_on_closed_class
    [where this = "pluginWith rollbackMap" and m = rollbackMap and re = literalRegExp
       and source = rollbackSource and filename = "asc ''a.js''" and Inv = rollbackClass]
  from i0 n have r0: "secondRun literalRegExp ((pluginWith openMap)\<lparr>l10nMap := None\<rparr>) quotesSource (asc ''a.js'') =
       firstRun literalRegExp ((pluginWith openMap)\<lparr>l10nMap := None\<rparr>) quotesSource (asc ''a.js'')"
    by blast
  from i1 lo p1 p2 p3 have r1: "secondRun literalRegExp (pluginWith openMap) quotesSource (asc ''a.js'') =
       firstRun literalRegExp (pluginWith openMap) quotesSource (asc ''a.js'')"
    by blast
  from i2 lr c0 c1 c2 c3 c4 have r2: "secondRun literalRegExp (pluginWith rollbackMap) rollbackSource (asc ''a.js'') =
       firstRun literalRegExp (pluginWith rollbackMap) rollbackSource (asc ''a.js'')"
    by blast
  from n p1 p2 p3 v1 v2 c0 r0 r1 r2 show ?thesis by blast
qed

text \<open>
  Two runs differ from one in two more ways: an entry writes the key of an entry before
  it, and a pattern that was rolled back is safe once a later pattern has removed the
  keyword in front of it.
\<close>

lemma second_run_chain:
  "firstRun literalRegExp (pluginWith chainMap) chainSource (asc ''a.js'') = [dquote] @ asc ''b'' @ [dquote]
   \<and> secondRun literalRegExp (pluginWith chainMap) chainSource (asc ''a.js'') = [dquote] @ asc ''c'' @ [dquote]"
  by code_simp

lemma second_run_after_rollback:
  "firstRun literalRegExp (pluginWith contextMap) contextSource (asc ''a.js'') = asc ''Home''
   \<and> secondRun literalRegExp (pluginWith contextMap) contextSource (asc ''a.js'') = zhTranslation"
  by code_simp

lemma second_run_shared_quote:
  "firstRun literalRegExp (pluginWith sharedQuoteMap) sharedQuoteSource (asc ''a.js'') =
     [dquote] @ asc ''x'' @ [dquote] @ asc ''a'' @ [dquote]
   \<and> secondRun literalRegExp (pluginWith sharedQuoteMap) sharedQuoteSource (asc ''a.js'') =
     [dquote] @ asc ''x'' @ [dquote] @ asc ''x'' @ [dquote]
   \<and> plainEntries (entriesOf sharedQuoteMap)
   \<and> occurs (dquote # asc ''a'' @ dquote # asc ''a'' @ [dquote]) sharedQuoteSource"
  by code_simp

section \<open>Assets that are not scripts\<close>

lemma updateAsset_length: "length (updateAsset f c assets) = length assets"
  by (simp add: updateAsset_def)

lemma updateAsset_nth:
  "i < length assets \<Longrightarrow> fst (assets ! i) \<noteq> f \<Longrightarrow> updateAsset f c assets ! i = assets ! i"
  by (cases "assets ! i") (simp add: updateAsset_def)

lemma processEntries_keeps:
  "i < length assets \<Longrightarrow> \<not> eligible (fst (assets ! i)) \<Longrightarrow>
   length (fst (snd (processEntries re es (this, assets, out)))) = length assets
   \<and> fst (snd (processEntries re es (this, assets, out))) ! i = assets ! i"
proof (induction es arbitrary: this assets out)
  case Nil
  then show ?case by simp
next
  case (Cons e es)
  obtain filename content where e: "e = (filename, content)" by (cases e)
  show ?case
  proof (cases "eligible filename")
    case False
    with Cons show ?thesis by (simp add: e)
  next
    case True
    obtain replacedContent this' msgs
      where rs: "replaceStrings re this content filename = (replacedContent, this', msgs)"
      by (cases "replaceStrings re this content filename")
    let ?assets' = "if replacedContent \<noteq> content then updateAsset filename replacedContent assets else assets"
    from True Cons.prems have ne: "fst (assets ! i) \<noteq> filename" by auto
    have l: "length ?assets' = length assets" by (simp add: updateAsset_length)
    have n: "?assets' ! i = assets ! i"
      using Cons.prems(1) ne by (simp add: updateAsset_nth)
    have "length (fst (snd (processEntries re es (this', ?assets', out @ msgs)))) = length ?assets'
      \<and> fst (snd (processEntries re es (this', ?assets', out @ msgs))) ! i = ?assets' ! i"
      using Cons.prems l n by (intro Cons.IH) simp_all
    with l n True rs show ?thesis by (simp add: e)
  qed
qed

lemma processEntries_skip:
  "\<not> eligible filename \<Longrightarrow>
   processEntries re (es1 @ (filename, content) # es2) s = processEntries re (es1 @ es2) s"
proof (induction es1 arbitrary: s)
  case Nil
  obtain this assets out where "s = (this, assets, out)" by (cases s)
  with Nil show ?case by simp
next
  case (Cons e es1)
  obtain this assets out where s: "s = (this, assets, out)" by (cases s)
  obtain f c where e: "e = (f, c)" by (cases e)
  from Cons show ?case by (simp add: s e split: prod.splits)
qed

lemma processEntries_plugin_out:
  "fst (processEntries re es (this, assets, out)) = fst (processEntries re es (this, assets', out))
   \<and> snd (snd (processEntries re es (this, assets, out))) =
       snd (snd (processEntries re es (this, assets', out)))"
proof (induction es arbitrary: this assets assets' out)
  case Nil
  then show ?case by simp
next
  case (Cons e es)
  obtain f c where e: "e = (f, c)" by (cases e)
  show ?case
  proof (cases "eligible f")
    case False
    with Cons show ?thesis by (simp add: e)
  next
    case True
    obtain replacedContent this' msgs
      where rs: "replaceStrings re this c f = (replacedContent, this', msgs)"
      by (cases "replaceStrings re this c f")
    from Cons[of this' _ "out @ msgs"] True rs show ?thesis by (simp add: e)
  qed
qed

text \<open>
  C9. An asset whose file name does not end in \<open>.js\<close> is skipped by the hook: its entry
  is the same after the hook, and the plugin (its statistics) and the output are those of
  the hook on the assets without it, so that no rule was applied to it.
\<close>

theorem ineligible_asset_untouched:
  "\<not> eligible filename \<longrightarrow>
     fst (snd (processAssets re this (as1 @ (filename, content) # as2))) ! length as1 = (filename, content)
     \<and> length (fst (snd (processAssets re this (as1 @ (filename, content) # as2)))) =
         length (as1 @ (filename, content) # as2)
     \<and> fst (processAssets re this (as1 @ (filename, content) # as2)) =
         fst (processAssets re this (as1 @ as2))
     \<and> snd (snd (processAssets re this (as1 @ (filename, content) # as2))) =
         snd (snd (processAssets re this (as1 @ as2)))"
proof
  let ?all = "as1 @ (filename, content) # as2"
  assume h: "\<not> eligible filename"
  have i: "length as1 < length ?all" by simp
  have n: "?all ! length as1 = (filename, content)" by simp
  from h n have "\<not> eligible (fst (?all ! length as1))" by simp
  from processEntries_keeps[OF i this, of re ?all "this" "[]"] n
  have a: "fst (snd (processAssets re this ?all)) ! length as1 = (filename, content)"
    and b: "length (fst (snd (processAssets re this ?all))) = length ?all"
    by (simp_all add: processAssets_def)
  have s: "processEntries re ?all (this, ?all, []) = processEntries re (as1 @ as2) (this, ?all, [])"
    using h by (rule processEntries_skip)
  from processEntries_plugin_out[of re "as1 @ as2" "this" ?all "[]" "as1 @ as2"]
  have c: "fst (processAssets re this ?all) = fst (processAssets re this (as1 @ as2))"
    and d: "snd (snd (processAssets re this ?all)) = snd (snd (processAssets re this (as1 @ as2)))"
    by (simp_all add: s processAssets_def)
  from a b c d show "fst (snd (processAssets re this ?all)) ! length as1 = (filename, content)
     \<and> length (fst (snd (processAssets re this ?all))) = length ?all
     \<and> fst (processAssets re this ?all) = fst (processAssets re this (as1 @ as2))
     \<and> snd (snd (processAssets re this ?all)) = snd (snd (processAssets re this (as1 @ as2)))"
    by blast
qed

theorem ineligible_asset_untouched_witness:
  "\<not> eligible (asc ''index.html'')
   \<and> fst (snd (processAssets literalRegExp (pluginWith openChangesMap)
        ([(asc ''main.js'', openChangesSource)] @ (asc ''index.html'', openChangesSource)
          # [(asc ''webview.js'', asc ''x='' @ [squote] @ asc ''Open Changes'' @ [squote])])))
       ! length [(asc ''main.js'', openChangesSource)] = (asc ''index.html'', openChangesSource)
   \<and> processAssets literalRegExp (pluginWith openChangesMap) someAssets =
       ((pluginWith openChangesMap)\<lparr>stats := \<lparr>filesProcessed = 2, stringsReplaced = 2\<rparr>\<rparr>,
        [(asc ''main.js'',
          asc ''const a = '' @ [dquote] @ zhOpenChanges @ [dquote] @ asc ''; function Open_Changes(){}''),
         (asc ''index.html'', openChangesSource),
         (asc ''webview.js'', asc ''x='' @ [squote] @ zhOpenChanges @ [squote])],
        [])"
proof -
  have h: "\<not> eligible (asc ''index.html'')"
    by code_simp
  have v: "processAssets literalRegExp (pluginWith openChangesMap) someAssets =
       ((pluginWith openChangesMap)\<lparr>stats := \<lparr>filesProcessed = 2, stringsReplaced = 2\<rparr>\<rparr>,
        [(asc ''main.js'',
          asc ''const a = '' @ [dquote] @ zhOpenChanges @ [dquote] @ asc ''; function Open_Changes(){}''),
         (asc ''index.html'', openChangesSource),
         (asc ''webview.js'', asc ''x='' @ [squote] @ zhOpenChanges @ [squote])],
        [])"
    by code_simp
  note inst = ineligible_asset_untouched
    [where filename = "asc ''index.html''" and content = openChangesSource and re = literalRegExp
       and this = "pluginWith openChangesMap" and ?as1.0 = "[(asc ''main.js'', openChangesSource)]"
       and ?as2.0 = "[(asc ''webview.js'', asc ''x='' @ [squote] @ asc ''Open Changes'' @ [squote])]"]
  from inst h v show ?thesis by blast
qed

section \<open>The manifest translator\<close>

lemma injectProperty_fst:
  "fst (injectProperty trs kc n) = fst (injectProperty trs kc 0)"
  by (cases kc) (simp add: injectProperty_def Let_def split: option.splits)

lemma injectProperties_fst:
  "fst (injectProperties trs props n) = map (\<lambda>kc. fst (injectProperty trs kc 0)) props"
proof (induction props arbitrary: n)
  case Nil
  then show ?case by simp
next
  case (Cons kc props)
  obtain kc' n' where a: "injectProperty trs kc n = (kc', n')" by (cases "injectProperty trs kc n")
  then have "kc' = fst (injectProperty trs kc 0)" using injectProperty_fst[of trs kc n] by simp
  with a Cons[of n'] show ?case by (auto split: prod.splits)
qed

lemma injectProperty_description:
  "description (snd (fst (injectProperty trs (key, config) n))) =
     (case trs key of None \<Rightarrow> description config
      | Some translation \<Rightarrow>
          if truthy (description translation) \<and> truthy (description config)
          then description translation else description config)"
  by (simp add: injectProperty_def Let_def split: option.splits)

lemma injectProperty_markdownDescription:
  "markdownDescription (snd (fst (injectProperty trs (key, config) n))) =
     (case trs key of None \<Rightarrow> markdownDescription config
      | Some translation \<Rightarrow>
          if truthy (markdownDescription translation) \<and> truthy (markdownDescription config)
          then markdownDescription translation else markdownDescription config)"
  by (simp add: injectProperty_def Let_def split: option.splits)

lemma injectProperty_key: "fst (fst (injectProperty trs (key, config) n)) = key"
  by (simp add: injectProperty_def Let_def split: option.splits)

lemma injectProperty_both:
  assumes "trs key = Some translation"
    and "truthy (description translation)" and "truthy (description config)"
    and "truthy (markdownDescription translation)" and "truthy (markdownDescription config)"
  shows "injectProperty trs (key, config) n =
           ((key, \<lparr>description = description translation,
                   markdownDescription = markdownDescription translation\<rparr>), n + 2)"
  using assms by (simp add: injectProperty_def)

lemma applyTranslations_configuration:
  assumes "l10n_configuration l10n = Some trs" and "configuration pkg = Some cfg"
    and "properties cfg = Some props"
  shows "configuration (fst (applyTranslations l10n pkg)) =
           Some (cfg\<lparr>properties := Some (map (\<lambda>kc. fst (injectProperty trs kc 0)) props)\<rparr>)"
proof -
  obtain pkg1 n1 where p1: "(case l10n_commands l10n of None \<Rightarrow> (pkg, 0)
       | Some trs \<Rightarrow> (case injectCommands trs (commands pkg) 0 of (cs, n) \<Rightarrow> (pkg\<lparr>commands := cs\<rparr>, n)))
      = (pkg1, n1)"
    by (cases "(case l10n_commands l10n of None \<Rightarrow> (pkg, 0)
       | Some trs \<Rightarrow> (case injectCommands trs (commands pkg) 0 of (cs, n) \<Rightarrow> (pkg\<lparr>commands := cs\<rparr>, n)))")
  then have c1: "configuration pkg1 = configuration pkg"
    by (auto split: option.splits prod.splits)
  obtain pkg2 n2 where p2: "(case l10n_views l10n of None \<Rightarrow> (pkg1, n1)
       | Some trs \<Rightarrow> (case injectViews trs (views pkg1) n1 of (vs, n) \<Rightarrow> (pkg1\<lparr>views := vs\<rparr>, n)))
      = (pkg2, n2)"
    by (cases "(case l10n_views l10n of None \<Rightarrow> (pkg1, n1)
       | Some trs \<Rightarrow> (case injectViews trs (views pkg1) n1 of (vs, n) \<Rightarrow> (pkg1\<lparr>views := vs\<rparr>, n)))")
  then have c2: "configuration pkg2 = configuration pkg1"
    by (auto split: option.splits prod.splits)
  obtain props' n where ip: "injectProperties trs props n2 = (props', n)"
    by (cases "injectProperties trs props n2")
  then have "props' = map (\<lambda>kc. fst (injectProperty trs kc 0)) props"
    using injectProperties_fst[of trs props n2] by simp
  with assms p1 p2 c1 c2 ip show ?thesis
    by (simp add: applyTranslations_def)
qed

text \<open>
  C6, as the code has it. Every configuration property of the manifest is translated on
  its own and keeps its key. Its \<open>description\<close> is overwritten exactly when the
  translation of its key supplies a non-empty one and the entry has a non-empty one; the
  same holds for \<open>markdownDescription\<close>. An entry without \<open>markdownDescription\<close> does not
  gain one. An entry whose two fields are non-empty, with non-empty translations of both,
  gets both, and the count grows by two.
\<close>

theorem configuration_field_gating:
  "fst (injectProperties trs props n) = map (\<lambda>kc. fst (injectProperty trs kc 0)) props
   \<and> fst (fst (injectProperty trs (key, config) n)) = key
   \<and> description (snd (fst (injectProperty trs (key, config) n))) =
       (case trs key of None \<Rightarrow> description config
        | Some translation \<Rightarrow>
            if truthy (description translation) \<and> truthy (description config)
            then description translation else description config)
   \<and> markdownDescription (snd (fst (injectProperty trs (key, config) n))) =
       (case trs key of None \<Rightarrow> markdownDescription config
        | Some translation \<Rightarrow>
            if truthy (markdownDescription translation) \<and> truthy (markdownDescription config)
            then markdownDescription translation else markdownDescription config)
   \<and> (markdownDescription config = None \<longrightarrow>
        markdownDescription (snd (fst (injectProperty trs (key, config) n))) = None)
   \<and> (trs key = Some translation
        \<and> truthy (description translation) \<and> truthy (description config)
        \<and> truthy (markdownDescription translation) \<and> truthy (markdownDescription config) \<longrightarrow>
        injectProperty trs (key, config) n =
          ((key, \<lparr>description = description translation,
                  markdownDescription = markdownDescription translation\<rparr>), n + 2))
   \<and> (l10n_configuration l10n = Some trs \<and> configuration pkg = Some cfg \<and> properties cfg = Some props \<longrightarrow>
        configuration (fst (applyTranslations l10n pkg)) =
          Some (cfg\<lparr>properties := Some (map (\<lambda>kc. fst (injectProperty trs kc 0)) props)\<rparr>))"
proof (intro conjI impI)
  show "fst (injectProperties trs props n) = map (\<lambda>kc. fst (injectProperty trs kc 0)) props"
    by (rule injectProperties_fst)
  show "fst (fst (injectProperty trs (key, config) n)) = key"
    by (rule injectProperty_key)
  show "description (snd (fst (injectProperty trs (key, config) n))) =
       (case trs key of None \<Rightarrow> description config
        | Some translation \<Rightarrow>
            if truthy (description translation) \<and> truthy (description config)
            then description translation else description config)"
    by (rule injectProperty_description)
  show md: "markdownDescription (snd (fst (injectProperty trs (key, config) n))) =
       (case trs key of None \<Rightarrow> markdownDescription config
        | Some translation \<Rightarrow>
            if truthy (markdownDescription translation) \<and> truthy (markdownDescription config)
            then markdownDescription translation else markdownDescription config)"
    by (rule injectProperty_markdownDescription)
  show "markdownDescription (snd (fst (injectProperty trs (key, config) n))) = None"
    if "markdownDescription config = None"
    using that by (simp add: md truthy_def split: option.splits)
  show "injectProperty trs (key, config) n =
          ((key, \<lparr>description = description translation,
                  markdownDescription = markdownDescription translation\<rparr>), n + 2)"
    if "trs key = Some translation
        \<and> truthy (description translation) \<and> truthy (description config)
        \<and> truthy (markdownDescription translation) \<and> truthy (markdownDescription config)"
    using that injectProperty_both by blast
  show "configuration (fst (applyTranslations l10n pkg)) =
          Some (cfg\<lparr>properties := Some (map (\<lambda>kc. fst (injectProperty trs kc 0)) props)\<rparr>)"
    if "l10n_configuration l10n = Some trs \<and> configuration pkg = Some cfg \<and> properties cfg = Some props"
    using that applyTranslations_configuration by blast
qed

theorem configuration_field_gating_witness:
  "markdownDescription modePlain = None
   \<and> injectProperty bothTranslation (asc ''gitlens.mode'', modePlain) 0 =
       ((asc ''gitlens.mode'', \<lparr>description = Some zhDescription, markdownDescription = None\<rparr>), 1)
   \<and> markdownDescription (snd (fst (injectProperty bothTranslation (asc ''gitlens.mode'', modePlain) 0))) = None
   \<and> bothTranslation (asc ''gitlens.mode'') =
       Some \<lparr>description = Some zhDescription, markdownDescription = Some zhMarkdown\<rparr>
   \<and> truthy (description modeBoth) \<and> truthy (markdownDescription modeBoth)
   \<and> truthy (Some zhDescription) \<and> truthy (Some zhMarkdown)
   \<and> injectProperty bothTranslation (asc ''gitlens.mode'', modeBoth) 0 =
       ((asc ''gitlens.mode'', \<lparr>description = Some zhDescription, markdownDescription = Some zhMarkdown\<rparr>), 0 + 2)
   \<and> configuration (fst (applyTranslations configL10n configPackage)) =
       Some \<lparr>properties = Some [(asc ''gitlens.mode'',
                 \<lparr>description = Some zhDescription, markdownDescription = Some zhMarkdown\<rparr>),
               (asc ''gitlens.other'', modeBoth)]\<rparr>
   \<and> snd (applyTranslations configL10n configPackage) = 2"
proof -
  let ?tr = "\<lparr>description = Some zhDescription, markdownDescription = Some zhMarkdown\<rparr>"
  let ?props = "[(asc ''gitlens.mode'', modeBoth), (asc ''gitlens.other'', modeBoth)]"
  have h1: "markdownDescription modePlain = None"
    by (simp add: modePlain_def)
  have h2: "bothTranslation (asc ''gitlens.mode'') = Some ?tr"
    by (simp add: bothTranslation_def)
  have h3: "truthy (description modeBoth)" "truthy (markdownDescription modeBoth)"
    "truthy (Some zhDescription)" "truthy (Some zhMarkdown)"
    by code_simp+
  have h4: "l10n_configuration configL10n = Some bothTranslation"
    "configuration configPackage = Some \<lparr>properties = Some ?props\<rparr>"
    "properties \<lparr>properties = Some ?props\<rparr> = Some ?props"
    by (simp_all add: configL10n_def configPackage_def)
  have v1: "injectProperty bothTranslation (asc ''gitlens.mode'', modePlain) 0 =
       ((asc ''gitlens.mode'', \<lparr>description = Some zhDescription, markdownDescription = None\<rparr>), 1)"
    by code_simp
  have v2: "map (\<lambda>kc. fst (injectProperty bothTranslation kc 0)) ?props =
       [(asc ''gitlens.mode'', ?tr), (asc ''gitlens.other'', modeBoth)]"
    by code_simp
  have v3: "snd (applyTranslations configL10n configPackage) = 2"
    by code_simp
  note i1 = configuration_field_gating
    [where trs = bothTranslation and key = "asc ''gitlens.mode''" and config = modePlain and n = 0]
  note i2 = configuration_field_gating
    [where trs = bothTranslation and key = "asc ''gitlens.mode''" and config = modeBoth and n = 0
       and translation = ?tr and l10n = configL10n and pkg = configPackage
       and cfg = "\<lparr>properties = Some ?props\<rparr>" and props = ?props]
  from i1 h1 have c1:
    "markdownDescription (snd (fst (injectProperty bothTranslation (asc ''gitlens.mode'', modePlain) 0))) = None"
    by blast
  from i2 h2 h3 have c2: "injectProperty bothTranslation (asc ''gitlens.mode'', modeBoth) 0 =
       ((asc ''gitlens.mode'', ?tr), 0 + 2)"
    by simp
  from i2 h4 have "configuration (fst (applyTranslations configL10n configPackage)) =
       Some (\<lparr>properties = Some ?props\<rparr>\<lparr>properties :=
          Some (map (\<lambda>kc. fst (injectProperty bothTranslation kc 0)) ?props)\<rparr>)"
    by blast
  then have c3: "configuration (fst (applyTranslations configL10n configPackage)) =
       Some \<lparr>properties = Some [(asc ''gitlens.mode'', ?tr), (asc ''gitlens.other'', modeBoth)]\<rparr>"
    unfolding v2 by simp
  from h1 h2 h3 v1 v3 c1 c2 c3 show ?thesis by blast
qed

text \<open>
  An entry with both fields, the second one empty, and translations of both: only
  \<open>description\<close> is overwritten, and one change is counted.
\<close>

theorem empty_markdownDescription_not_updated:
  "bothTranslation (asc ''gitlens.mode'') =
     Some \<lparr>description = Some zhDescription, markdownDescription = Some zhMarkdown\<rparr>
   \<and> modeEmptyMarkdown = \<lparr>description = Some (asc ''Mode''), markdownDescription = Some []\<rparr>
   \<and> injectProperty bothTranslation (asc ''gitlens.mode'', modeEmptyMarkdown) 0 =
       ((asc ''gitlens.mode'', \<lparr>description = Some zhDescription, markdownDescription = Some []\<rparr>), 1)"
  by code_simp

text \<open>
  C7. Without the translation file \<open>injectLocalization\<close> returns after the existence
  test: it throws nothing, reads and writes neither file, leaves the files as they are
  and prints the start line and the skip notice only, so that no change is reported.
\<close>

theorem missing_map_is_noop:
  "l10nFile fs = None \<longrightarrow>
     fst (injectLocalization js fs) = None
     \<and> fst (snd (injectLocalization js fs)) = fs
     \<and> snd (snd (injectLocalization js fs)) = [LogStart, ExistsSync L10nPath, LogSkipped]
     \<and> list_all (\<lambda>e. case e of ReadFile p \<Rightarrow> False | WriteFile p c \<Rightarrow> False
                         | LogDone n \<Rightarrow> False | _ \<Rightarrow> True)
          (snd (snd (injectLocalization js fs)))"
proof
  assume "l10nFile fs = None"
  then have r: "injectLocalization js fs = (None, fs, [LogStart, ExistsSync L10nPath, LogSkipped])"
    by (simp add: injectLocalization_def)
  show "fst (injectLocalization js fs) = None
     \<and> fst (snd (injectLocalization js fs)) = fs
     \<and> snd (snd (injectLocalization js fs)) = [LogStart, ExistsSync L10nPath, LogSkipped]
     \<and> list_all (\<lambda>e. case e of ReadFile p \<Rightarrow> False | WriteFile p c \<Rightarrow> False
                         | LogDone n \<Rightarrow> False | _ \<Rightarrow> True)
          (snd (snd (injectLocalization js fs)))"
    unfolding r by simp
qed

theorem missing_map_is_noop_witness:
  "l10nFile \<lparr>l10nFile = None, packageFile = Some (asc ''{}'')\<rparr> = None
   \<and> fst (injectLocalization noJson \<lparr>l10nFile = None, packageFile = Some (asc ''{}'')\<rparr>) = None
   \<and> fst (snd (injectLocalization noJson \<lparr>l10nFile = None, packageFile = Some (asc ''{}'')\<rparr>)) =
       \<lparr>l10nFile = None, packageFile = Some (asc ''{}'')\<rparr>
   \<and> snd (snd (injectLocalization noJson \<lparr>l10nFile = None, packageFile = Some (asc ''{}'')\<rparr>)) =
       [LogStart, ExistsSync L10nPath, LogSkipped]"
proof -
  have h: "l10nFile \<lparr>l10nFile = None, packageFile = Some (asc ''{}'')\<rparr> = None"
    by simp
  from missing_map_is_noop[where fs = "\<lparr>l10nFile = None, packageFile = Some (asc ''{}'')\<rparr>" and js = noJson] h
  show ?thesis by blast
qed

end
